theory Spec2Isabelle
  imports Complex_Main "HOL-Library.Multiset"
begin

section \<open>Fair max-min diversification: the MWU solver and the gamma-falloff driver\<close>

text \<open>
  A shallow embedding of \<^verbatim>\<open>mult_weight_upd\<close> and \<^verbatim>\<open>epsilon_falloff\<close> of
  \<^verbatim>\<open>fmmdmwu_nyoom.py\<close>. Inside the solver Python floats (numpy doubles) are idealised
  as real numbers: the statements about the solver are about exact arithmetic and say
  nothing about rounding. The driver's \<open>gamma\<close> is rounded to doubles, since what the
  driver passes to the solver depends on it.
  Arrays of shape (N, 1) are lists; the timing bookkeeping (\<^verbatim>\<open>translation_time\<close>,
  the stopwatches, the progress bar) is left out.
\<close>

subsection \<open>Errors\<close>

datatype py_error = AssertionError | ZeroDivisionError | ValueError | UnboundLocalError

subsection \<open>The two spatial queries\<close>

type_synonym point = "real list"

definition sq_dist :: "point \<Rightarrow> point \<Rightarrow> real" where
  "sq_dist p q = (\<Sum>(x, y)\<leftarrow>zip p q. (x - y) * (x - y))"

text \<open>Euclidean distance at most \<open>r\<close>, written without the square root so that it can be
  evaluated; \<open>in_ball_sqrt\<close> below shows it is the same condition.\<close>

definition in_ball :: "real \<Rightarrow> point \<Rightarrow> point \<Rightarrow> bool" where
  "in_ball r p q \<longleftrightarrow> 0 \<le> r \<and> sq_dist p q \<le> r * r"

text \<open>Modelled from the spec: \<^verbatim>\<open>WeightedTree.run_query\<close> (datastructures/WeightedTree is
  not among the sources). The spec, 4.A: the result at point \<open>i\<close> is the sum of \<open>w[j]\<close> over
  all \<open>j\<close> with \<open>\<parallel>p_i - p_j\<parallel> \<le> r\<close>; a point includes itself.\<close>

definition run_query :: "point list \<Rightarrow> real \<Rightarrow> real list \<Rightarrow> real list" where
  "run_query feats r w =
     map (\<lambda>p. \<Sum>(q, wj)\<leftarrow>zip feats w. if in_ball r p q then wj else 0) feats"

text \<open>Modelled from the spec: \<^verbatim>\<open>BallTree.create\<close> and \<^verbatim>\<open>BallTree.get_counts_in_range\<close>
  (datastructures/BallTree is not among the sources). The spec, 4.B: the count at query
  point \<open>i\<close> is the number of centers \<open>j\<close> with \<open>\<parallel>q_i - center_j\<parallel> \<le> r\<close>.\<close>

definition get_counts_in_range :: "point list \<Rightarrow> point list \<Rightarrow> real \<Rightarrow> nat list" where
  "get_counts_in_range Z feats r = map (\<lambda>q. length (filter (in_ball r q) Z)) feats"

subsection \<open>numpy operations used by the selection\<close>

text \<open>\<^verbatim>\<open>(color == colors).nonzero()[0]\<close>: the indices of the points of one color, ascending.\<close>

definition color_indices :: "'c list \<Rightarrow> 'c \<Rightarrow> nat list" where
  "color_indices cols c = filter (\<lambda>i. cols ! i = c) [0..<length cols]"

text \<open>
  \<^verbatim>\<open>np.argpartition(a, kth)\<close> is a library routine; the solver takes it as a parameter
  \<open>ap\<close>. numpy documents its result as a permutation of the positions of \<open>a\<close> in which the
  element at position \<open>kth\<close> is where a sort would put it, smaller elements before and
  larger-or-equal after, in no promised order. \<open>argpartition_post\<close> is that contract for one
  call, \<open>argpartition_ok\<close> the contract for every call.
\<close>

definition argpartition_post :: "real list \<Rightarrow> nat \<Rightarrow> nat list \<Rightarrow> bool" where
  "argpartition_post a kth p \<longleftrightarrow>
     distinct p \<and> set p = {0..<length a} \<and>
     (\<forall>i<length p. (i < kth \<longrightarrow> a ! (p ! i) \<le> a ! (p ! kth)) \<and>
                     (kth < i \<longrightarrow> a ! (p ! kth) \<le> a ! (p ! i)))"

definition argpartition_ok :: "(real list \<Rightarrow> nat \<Rightarrow> nat list) \<Rightarrow> bool" where
  "argpartition_ok ap \<longleftrightarrow> (\<forall>a kth. kth < length a \<longrightarrow> argpartition_post a kth (ap a kth))"

text \<open>The call itself: on an empty array numpy returns the empty index array without
  looking at \<open>kth\<close>; otherwise a negative \<open>kth\<close> counts from the end, and a \<open>kth\<close> outside
  the array raises ValueError.\<close>

definition np_argpartition ::
  "(real list \<Rightarrow> nat \<Rightarrow> nat list) \<Rightarrow> real list \<Rightarrow> int \<Rightarrow> py_error + nat list" where
  "np_argpartition ap a kth =
     (let n = int (length a);
          kth' = (if kth < 0 then kth + n else kth)
      in if a = [] then Inr []
         else if kth' < 0 \<or> n \<le> kth' then Inl ValueError
         else Inr (ap a (nat kth')))"

text \<open>The slice \<^verbatim>\<open>xs[:K]\<close>; a negative \<open>K\<close> drops from the end.\<close>

definition py_slice_to :: "int \<Rightarrow> 'a list \<Rightarrow> 'a list" where
  "py_slice_to K xs = (if 0 \<le> K then take (nat K) xs else take (length xs - nat (- K)) xs)"

text \<open>\<^verbatim>\<open>X[idx] += 1\<close> with an index array: every listed position is incremented once.\<close>

definition add_at :: "real list \<Rightarrow> nat list \<Rightarrow> real list" where
  "add_at X idx = map (\<lambda>i. if i \<in> set idx then X ! i + 1 else X ! i) [0..<length X]"

subsection \<open>The per-color selection (lines 79 to 94)\<close>

text \<open>\<^verbatim>\<open>min_indecies\<close> for one color: positions of the \<open>K\<close> smallest sums among the points
  of that color, mapped back to point indices.\<close>

definition select_color ::
  "(real list \<Rightarrow> nat \<Rightarrow> nat list) \<Rightarrow> 'c list \<Rightarrow> real list \<Rightarrow> 'c \<Rightarrow> int \<Rightarrow> py_error + nat list" where
  "select_color ap cols w_sums c K =
     (let color_sums_ind = color_indices cols c;
          color_sums = map (\<lambda>i. w_sums ! i) color_sums_ind
      in case np_argpartition ap color_sums (K - 1) of
           Inl e \<Rightarrow> Inl e
         | Inr partition_idx \<Rightarrow>
             Inr (map (\<lambda>j. color_sums_ind ! j) (py_slice_to K partition_idx)))"

text \<open>The loop over \<^verbatim>\<open>kis.keys()\<close>. The dictionary is an association list in insertion
  order; the accumulator is \<open>(X, S, W)\<close>.\<close>

fun color_loop ::
  "(real list \<Rightarrow> nat \<Rightarrow> nat list) \<Rightarrow> point list \<Rightarrow> 'c list \<Rightarrow> real list \<Rightarrow> ('c \<times> int) list \<Rightarrow>
   real list \<times> point list \<times> real \<Rightarrow> py_error + (real list \<times> point list \<times> real)" where
  "color_loop ap feats cols w_sums [] acc = Inr acc"
| "color_loop ap feats cols w_sums ((c, K) # rest) (X, S, W) =
     (case select_color ap cols w_sums c K of
        Inl e \<Rightarrow> Inl e
      | Inr min_indecies \<Rightarrow>
          color_loop ap feats cols w_sums rest
            (add_at X min_indecies,
             S @ map (\<lambda>i. feats ! i) min_indecies,
             W + (\<Sum>i\<leftarrow>min_indecies. w_sums ! i)))"

subsection \<open>One iteration of the MWU loop (lines 68 to 130)\<close>

record 'c mwu_args =
  gamma :: real
  N :: nat
  k :: int
  features :: "point list"
  colors :: "'c list"
  kis :: "('c \<times> int) list"
  epsilon :: real
  percent_theoretical_limit :: real

text \<open>The loop-carried state. \<open>gen\<close> is the number of draws made so far from the random
  generator, whose \<open>i\<close>-th draw of \<^verbatim>\<open>gen.integers(9, 29)\<close> is \<open>draws i\<close>.\<close>

record mwu_state =
  h :: "real list"
  X :: "real list"
  nextSolutionCheckWait :: int
  gen :: nat

datatype flow = Continue mwu_state | Break mwu_state | Return_None

text \<open>Lines 101 to 111: \<open>M\<close> from the ball counts, the multiplicative update of \<open>h\<close> and
  its normalisation. \<^verbatim>\<open>1.0 / mu\<close> with \<open>mu = 0\<close> raises; the caller tests for it.\<close>

definition update_h :: "real \<Rightarrow> int \<Rightarrow> nat list \<Rightarrow> real list \<Rightarrow> real list" where
  "update_h scaled_eps mu Cs hv =
     (let M = map (\<lambda>c. (1 / of_int mu) * ((-1 * of_nat c) + 1)) Cs;
          h1 = map2 (\<lambda>hi Mi. hi * (1 - (scaled_eps / 4) * Mi)) hv M
      in map (\<lambda>x. x / sum_list h1) h1)"

definition mwu_body ::
  "(real list \<Rightarrow> nat \<Rightarrow> nat list) \<Rightarrow> (nat \<Rightarrow> int) \<Rightarrow> 'c mwu_args \<Rightarrow> real \<Rightarrow> int \<Rightarrow>
   nat \<Rightarrow> mwu_state \<Rightarrow> py_error + flow" where
  "mwu_body ap draws P scaled_eps mu t s =
     (let w_sums = run_query (features P) (gamma P / 2) (h s)
      in case color_loop ap (features P) (colors P) w_sums (kis P) (X s, [], 0) of
           Inl e \<Rightarrow> Inl e
         | Inr (X', S, W) \<Rightarrow>
             if W \<ge> 1 then Inr Return_None
             else
               let Cs = get_counts_in_range S (features P) (gamma P / 2)
               in if Cs \<noteq> [] \<and> mu = 0 then Inl ZeroDivisionError
                  else
                    let h' = update_h scaled_eps mu Cs (h s)
                    in if t > 100 \<and> nextSolutionCheckWait s = 0 then
                         let X_weights =
                               run_query (features P) (gamma P / 2)
                                 (map (\<lambda>x. x / (of_nat t + 1)) X')
                         in if \<not> list_ex (\<lambda>x. x > 1 + epsilon P) X_weights
                            then Inr (Break \<lparr>h = h', X = X',
                                   nextSolutionCheckWait = draws (gen s), gen = gen s + 1\<rparr>)
                            else Inr (Continue \<lparr>h = h', X = X',
                                   nextSolutionCheckWait = draws (gen s), gen = gen s + 1\<rparr>)
                       else Inr (Continue \<lparr>h = h', X = X',
                              nextSolutionCheckWait = nextSolutionCheckWait s - 1,
                              gen = gen s\<rparr>))"

subsection \<open>The loop and the solver\<close>

text \<open>\<^verbatim>\<open>for t in range(...)\<close>: the second argument is the last value bound to \<open>t\<close>, \<open>None\<close>
  while the loop variable is unbound.\<close>

datatype loop_exit = Returned_None | Left_Loop "nat option" mwu_state

fun mwu_for ::
  "(real list \<Rightarrow> nat \<Rightarrow> nat list) \<Rightarrow> (nat \<Rightarrow> int) \<Rightarrow> 'c mwu_args \<Rightarrow> real \<Rightarrow> int \<Rightarrow>
   nat list \<Rightarrow> nat option \<Rightarrow> mwu_state \<Rightarrow> py_error + loop_exit" where
  "mwu_for ap draws P scaled_eps mu [] last_t s = Inr (Left_Loop last_t s)"
| "mwu_for ap draws P scaled_eps mu (t # ts) last_t s =
     (case mwu_body ap draws P scaled_eps mu t s of
        Inl e \<Rightarrow> Inl e
      | Inr Return_None \<Rightarrow> Inr Returned_None
      | Inr (Break s') \<Rightarrow> Inr (Left_Loop (Some t) s')
      | Inr (Continue s') \<Rightarrow> mwu_for ap draws P scaled_eps mu ts (Some t) s')"

definition scaled_eps_of :: "real \<Rightarrow> real" where
  "scaled_eps_of eps = eps / (1 + eps / 4)"

text \<open>The number of loop iterations, \<^verbatim>\<open>math.ceil(T)\<close> after \<^verbatim>\<open>T *= percent_theoretical_limit\<close>;
  \<^verbatim>\<open>range\<close> of a negative number is empty.\<close>

definition mwu_T :: "'c mwu_args \<Rightarrow> real" where
  "mwu_T P =
     ((8 * of_int (k P - 1)) / (scaled_eps_of (epsilon P))\<^sup>2) * ln (real (N P))
       * percent_theoretical_limit P"

definition mwu_rounds :: "'c mwu_args \<Rightarrow> nat" where
  "mwu_rounds P = nat \<lceil>mwu_T P\<rceil>"

definition mwu_init :: "(nat \<Rightarrow> int) \<Rightarrow> 'c mwu_args \<Rightarrow> mwu_state" where
  "mwu_init draws P =
     \<lparr>h = replicate (N P) (1 / real (N P)), X = replicate (N P) 0,
      nextSolutionCheckWait = draws 0, gen = 1\<rparr>"

text \<open>The loop of the solver, from the initial state.\<close>

definition mwu_run ::
  "(real list \<Rightarrow> nat \<Rightarrow> nat list) \<Rightarrow> (nat \<Rightarrow> int) \<Rightarrow> 'c mwu_args \<Rightarrow> py_error + loop_exit" where
  "mwu_run ap draws P =
     mwu_for ap draws P (scaled_eps_of (epsilon P)) (k P - 1) [0..<mwu_rounds P] None
       (mwu_init draws P)"

text \<open>\<^verbatim>\<open>mult_weight_upd\<close>: \<open>Inr None\<close> is the return value \<^verbatim>\<open>None\<close> (infeasible),
  \<open>Inr (Some X)\<close> the returned vector, \<open>Inl e\<close> an exception.\<close>

definition mult_weight_upd ::
  "(real list \<Rightarrow> nat \<Rightarrow> nat list) \<Rightarrow> (nat \<Rightarrow> int) \<Rightarrow> 'c mwu_args \<Rightarrow> py_error + real list option" where
  "mult_weight_upd ap draws P =
     (if \<not> k P > 0 then Inl AssertionError
      else if 1 + epsilon P / 4 = 0 then Inl ZeroDivisionError
      else if N P = 0 then Inl ZeroDivisionError
      else if (scaled_eps_of (epsilon P))\<^sup>2 = 0 then Inl ZeroDivisionError
      else case mwu_run ap draws P of
             Inl e \<Rightarrow> Inl e
           | Inr Returned_None \<Rightarrow> Inr None
           | Inr (Left_Loop None s) \<Rightarrow> Inl UnboundLocalError
           | Inr (Left_Loop (Some t) s) \<Rightarrow> Inr (Some (map (\<lambda>x. x / (of_nat t + 1)) (X s))))"

text \<open>The state at the start of iteration \<open>t\<close>, when every earlier iteration ran to its
  end without returning, breaking or raising; \<open>None\<close> otherwise. It names "the state at
  iteration \<open>t\<close>" in the statements below.\<close>

fun mwu_state_at ::
  "(real list \<Rightarrow> nat \<Rightarrow> nat list) \<Rightarrow> (nat \<Rightarrow> int) \<Rightarrow> 'c mwu_args \<Rightarrow> nat \<Rightarrow> mwu_state option" where
  "mwu_state_at ap draws P 0 = Some (mwu_init draws P)"
| "mwu_state_at ap draws P (Suc t) =
     (case mwu_state_at ap draws P t of
        None \<Rightarrow> None
      | Some s \<Rightarrow>
          (case mwu_body ap draws P (scaled_eps_of (epsilon P)) (k P - 1) t s of
             Inr (Continue s') \<Rightarrow> Some s'
           | _ \<Rightarrow> None))"

text \<open>The accumulated weight \<open>W\<close> of one iteration started in state \<open>s\<close>: the sum of
  \<open>w_sums\<close> over the indices selected for all colors, as it stands at the test
  \<^verbatim>\<open>if W >= 1\<close>; \<open>None\<close> when the selection raised.\<close>

definition round_W ::
  "(real list \<Rightarrow> nat \<Rightarrow> nat list) \<Rightarrow> 'c mwu_args \<Rightarrow> mwu_state \<Rightarrow> real option" where
  "round_W ap P s =
     (case color_loop ap (features P) (colors P)
             (run_query (features P) (gamma P / 2) (h s)) (kis P) (X s, [], 0) of
        Inl e \<Rightarrow> None
      | Inr (X', S, W) \<Rightarrow> Some W)"

text \<open>Valid input, as the driver and the spec have it: \<open>N\<close> points with \<open>N\<close> colors, a quota
  map with distinct keys (a dictionary), every quota between 1 and the number of points
  of its color, \<open>k\<close> the sum of the quotas, \<open>\<epsilon>\<close> in (0, 1) and the iteration scale in (0, 1].\<close>

definition valid_input :: "'c mwu_args \<Rightarrow> bool" where
  "valid_input P \<longleftrightarrow>
     length (features P) = N P \<and> length (colors P) = N P \<and>
     distinct (map fst (kis P)) \<and>
     (\<forall>(c, K) \<in> set (kis P). 1 \<le> K \<and> K \<le> int (length (color_indices (colors P) c))) \<and>
     k P = sum_list (map snd (kis P)) \<and>
     0 < epsilon P \<and> epsilon P < 1 \<and>
     0 < percent_theoretical_limit P \<and> percent_theoretical_limit P \<le> 1"

subsection \<open>Doubles\<close>

text \<open>
  \<open>gamma\<close> is a double, and the driver's \<^verbatim>\<open>gamma * (1 - falloff_epsilon)\<close> rounds twice,
  once for the difference and once for the product, to the nearest double, a tie going
  to the neighbour with an even last bit. \<open>round_double\<close> is that rounding on the reals
  (overflow to infinity left out: the driver only makes \<open>gamma\<close> smaller). Around \<open>x\<close> the
  doubles are \<open>double_quantum x\<close> apart: \<open>2\<^sup>e\<^sup>-\<^sup>5\<^sup>2\<close> when \<open>2\<^sup>e \<le> |x| < 2\<^sup>e\<^sup>+\<^sup>1\<close> with
  \<open>e \<ge> -1022\<close>, and \<open>2\<^sup>-\<^sup>1\<^sup>0\<^sup>7\<^sup>4\<close> below that. Only the driver's \<open>gamma\<close> is rounded; the
  arithmetic inside the solver stays exact.
\<close>

definition round_half_even :: "real \<Rightarrow> int" where
  "round_half_even x =
     (let f = \<lfloor>x\<rfloor>; r = x - of_int f
      in if r < 1 / 2 then f else if 1 / 2 < r then f + 1 else if even f then f else f + 1)"

definition double_quantum :: "real \<Rightarrow> real" where
  "double_quantum x = 2 powi (max \<lfloor>log 2 \<bar>x\<bar>\<rfloor> (- 1022) - 52)"

definition round_double :: "real \<Rightarrow> real" where
  "round_double x =
     (if x = 0 then 0
      else of_int (round_half_even (x / double_quantum x)) * double_quantum x)"

subsection \<open>The gamma-falloff driver (lines 153 to 171)\<close>

text \<open>A call of the solver by the driver. \<open>received\<close> lists the values of \<open>gamma\<close> the
  solver has been called with so far, oldest first; the call adds the argument it is
  given. Every call makes its own random generator, so the solver is told which call
  it is.\<close>

definition solver_call ::
  "(nat \<Rightarrow> real \<Rightarrow> py_error + real list option) \<Rightarrow> real list \<Rightarrow> real \<Rightarrow>
   (py_error + real list option) \<times> real list" where
  "solver_call solve received g = (solve (length received) g, received @ [g])"

text \<open>Line 169, \<^verbatim>\<open>gamma = gamma * (1 - falloff_epsilon)\<close>, in doubles.\<close>

definition falloff_step :: "real \<Rightarrow> real \<Rightarrow> real" where
  "falloff_step falloff_epsilon g = round_double (g * round_double (1 - falloff_epsilon))"

text \<open>
  \<^verbatim>\<open>while X is None\<close> may run forever, so the loop takes fuel: the number of times its
  condition may be tested. The result is \<open>None\<close> when the fuel runs out with the loop still
  running. On leaving the loop the driver goes on to the rounding with \<open>(gamma, X)\<close>,
  which is where the model stops.
\<close>

fun falloff_while ::
  "(nat \<Rightarrow> real \<Rightarrow> py_error + real list option) \<Rightarrow> real \<Rightarrow> nat \<Rightarrow> real \<Rightarrow> real list \<Rightarrow>
   py_error + real list option \<Rightarrow> real list \<times> (py_error + real \<times> real list) option" where
  "falloff_while solve falloff_epsilon 0 gamma_cur received Xr = (received, None)"
| "falloff_while solve falloff_epsilon (Suc fuel) gamma_cur received Xr =
     (case Xr of
        Inl e \<Rightarrow> (received, Some (Inl e))
      | Inr (Some Xv) \<Rightarrow> (received, Some (Inr (gamma_cur, Xv)))
      | Inr None \<Rightarrow>
          (let gamma' = falloff_step falloff_epsilon gamma_cur;
               (Xr', received') = solver_call solve received gamma'
           in falloff_while solve falloff_epsilon fuel gamma' received' Xr'))"

text \<open>\<^verbatim>\<open>epsilon_falloff\<close> up to the rounding: \<open>draws n\<close> is the generator of call number
  \<open>n\<close>. The first component of the result is what the solver was called with.\<close>

definition epsilon_falloff ::
  "(real list \<Rightarrow> nat \<Rightarrow> nat list) \<Rightarrow> (nat \<Rightarrow> nat \<Rightarrow> int) \<Rightarrow> point list \<Rightarrow> 'c list \<Rightarrow>
   ('c \<times> int) list \<Rightarrow> real \<Rightarrow> real \<Rightarrow> real \<Rightarrow> real \<Rightarrow> nat \<Rightarrow>
   real list \<times> (py_error + real \<times> real list) option" where
  "epsilon_falloff ap draws feats cols quotas gamma_upper mwu_epsilon falloff_epsilon ptl fuel =
     (let solve = (\<lambda>n g. mult_weight_upd ap (draws n)
                     \<lparr>gamma = g, N = length feats, k = sum_list (map snd quotas),
                      features = feats, colors = cols, kis = quotas,
                      epsilon = mwu_epsilon, percent_theoretical_limit = ptl\<rparr>);
          (Xr, received) = solver_call solve [] gamma_upper
      in falloff_while solve falloff_epsilon fuel gamma_upper received Xr)"

subsection \<open>Two argpartition routines and a small instance\<close>

text \<open>A full stable sort of the positions meets the contract of argpartition.\<close>

definition argsort :: "real list \<Rightarrow> nat \<Rightarrow> nat list" where
  "argsort a kth = sort_key (\<lambda>i. a ! i) [0..<length a]"

text \<open>Selection by repeated minimum: for each position up to \<open>kth\<close>, find the first
  smallest element from there on and swap it into place. This is the scheme numpy's
  introselect applies for small \<open>kth\<close>.\<close>

fun first_min_from :: "real list \<Rightarrow> nat list \<Rightarrow> nat \<Rightarrow> nat \<Rightarrow> nat \<Rightarrow> nat" where
  "first_min_from v tosort minidx j 0 = minidx"
| "first_min_from v tosort minidx j (Suc m) =
     (if v ! (tosort ! j) < v ! (tosort ! minidx)
      then first_min_from v tosort j (Suc j) m
      else first_min_from v tosort minidx (Suc j) m)"

fun dumb_select :: "real list \<Rightarrow> nat list \<Rightarrow> nat \<Rightarrow> nat \<Rightarrow> nat list" where
  "dumb_select v tosort i 0 = tosort"
| "dumb_select v tosort i (Suc m) =
     (let minidx = first_min_from v tosort i (Suc i) (length tosort - Suc i)
      in dumb_select v (tosort[i := tosort ! minidx, minidx := tosort ! i]) (Suc i) m)"

definition argselect :: "real list \<Rightarrow> nat \<Rightarrow> nat list" where
  "argselect a kth = dumb_select a [0..<length a] 0 (Suc kth)"

text \<open>Three points on a line, two of color a and one of color b, one point wanted of each
  color, and an iteration scale small enough for a single iteration.\<close>

definition P_small :: "real \<Rightarrow> string mwu_args" where
  "P_small g =
     \<lparr>gamma = g, N = 3, k = 2, features = [ [0], [1], [2]], colors = [''a'', ''a'', ''b''],
      kis = [(''a'', 1), (''b'', 1)], epsilon = 1 / 2, percent_theoretical_limit = 1 / 100\<rparr>"

text \<open>Two points of one color, both wanted: \<open>k = N = 2\<close>.\<close>

definition P_all :: "real \<Rightarrow> real \<Rightarrow> real \<Rightarrow> string mwu_args" where
  "P_all g eps ptl =
     \<lparr>gamma = g, N = 2, k = 2, features = [ [0], [1]], colors = [''a'', ''a''],
      kis = [(''a'', 2)], epsilon = eps, percent_theoretical_limit = ptl\<rparr>"

text \<open>The same three points with \<open>\<epsilon> = 1/10\<close> and the full iteration count, which is
  more than 800 iterations: long enough to leave the warmup of 100.\<close>

definition P_warm :: "string mwu_args" where
  "P_warm =
     \<lparr>gamma = 1 / 2, N = 3, k = 2, features = [ [0], [1], [2]], colors = [''a'', ''a'', ''b''],
      kis = [(''a'', 1), (''b'', 1)], epsilon = 1 / 10, percent_theoretical_limit = 1\<rparr>"

text \<open>Three points of one color, one point wanted: \<open>k = 1\<close>.\<close>

definition P_single :: "string mwu_args" where
  "P_single =
     \<lparr>gamma = 1 / 2, N = 3, k = 1, features = [ [0], [1], [2]], colors = [''a'', ''a'', ''a''],
      kis = [(''a'', 1)], epsilon = 1 / 2, percent_theoretical_limit = 1\<rparr>"

text \<open>A generator whose every draw is 9, the least value of \<^verbatim>\<open>gen.integers(9, 29)\<close>.\<close>

definition draws9 :: "nat \<Rightarrow> int" where
  "draws9 i = 9"

subsection \<open>Invariants and the bound of the spec\<close>

text \<open>The invariant of the weight vector: no negative entry, and the entries sum to 1.\<close>

definition h_ok :: "real list \<Rightarrow> bool" where
  "h_ok hv \<longleftrightarrow> (\<forall>x\<in>set hv. 0 \<le> x) \<and> sum_list hv = 1"

text \<open>What holds of the state at the start of iteration \<open>t\<close>: both vectors have \<open>N\<close>
  entries, \<open>h\<close> is normalised and no entry of \<open>X\<close> exceeds the number of iterations run.\<close>

definition state_ok :: "'c mwu_args \<Rightarrow> nat \<Rightarrow> mwu_state \<Rightarrow> bool" where
  "state_ok P t s \<longleftrightarrow>
     length (h s) = N P \<and> h_ok (h s) \<and> length (X s) = N P \<and>
     (\<forall>x\<in>set (X s). 0 \<le> x \<and> x \<le> real t)"

text \<open>The iteration bound in the words of the spec: the ceiling of \<open>(8\<mu>/\<epsilon>'\<^sup>2) ln N\<close>, then
  scaled by the factor \<open>\<alpha>\<close>.\<close>

definition spec_T :: "'c mwu_args \<Rightarrow> real" where
  "spec_T P =
     percent_theoretical_limit P *
       of_int \<lceil>((8 * of_int (k P - 1)) / (scaled_eps_of (epsilon P))\<^sup>2) * ln (real (N P))\<rceil>"

text \<open>The selection in the words of the spec: the first \<open>K\<close> indices of the color in the
  order (sum ascending, index ascending). The indices of a color are ascending and the
  sort is stable, so ties come out by ascending index.\<close>

definition spec_select :: "'c list \<Rightarrow> real list \<Rightarrow> 'c \<Rightarrow> int \<Rightarrow> nat list" where
  "spec_select cols w_sums c K =
     take (nat K) (sort_key (\<lambda>i. w_sums ! i) (color_indices cols c))"

section \<open>Auxiliary facts\<close>

lemma sq_dist_nonneg: "0 \<le> sq_dist p q"
  unfolding sq_dist_def by (induction p q rule: list_induct2') auto

lemma in_ball_sqrt: "in_ball r p q \<longleftrightarrow> sqrt (sq_dist p q) \<le> r"
proof -
  have nn: "0 \<le> sq_dist p q" by (rule sq_dist_nonneg)
  show ?thesis
  proof (cases "0 \<le> r")
    case True
    have "sqrt (sq_dist p q) \<le> r \<longleftrightarrow> sq_dist p q \<le> r\<^sup>2"
      using True nn by (metis real_sqrt_le_iff real_sqrt_abs abs_of_nonneg)
    then show ?thesis using True by (simp add: in_ball_def power2_eq_square)
  next
    case False
    have "0 \<le> sqrt (sq_dist p q)" using nn by simp
    then have "\<not> sqrt (sq_dist p q) \<le> r" using False by linarith
    then show ?thesis using False by (simp add: in_ball_def)
  qed
qed

lemma np_argpartition_Inr:
  assumes "argpartition_ok ap" and "np_argpartition ap a kth = Inr p"
  shows "distinct p \<and> set p = {0..<length a}"
  using assms
  by (auto simp: np_argpartition_def argpartition_ok_def argpartition_post_def Let_def
      split: if_splits)

lemma np_argpartition_quota:
  assumes "argpartition_ok ap" and "1 \<le> K" and "K \<le> int (length a)"
  shows "np_argpartition ap a (K - 1) = Inr (ap a (nat (K - 1)))"
    and "argpartition_post a (nat (K - 1)) (ap a (nat (K - 1)))"
  using assms
  by (auto simp: np_argpartition_def argpartition_ok_def Let_def)

lemma set_py_slice_to: "set (py_slice_to K xs) \<subseteq> set xs"
  by (auto simp: py_slice_to_def dest: in_set_takeD)

lemma distinct_py_slice_to: "distinct xs \<Longrightarrow> distinct (py_slice_to K xs)"
  by (simp add: py_slice_to_def)

lemma color_indices_props:
  "distinct (color_indices cols c)"
  "set (color_indices cols c) = {i. i < length cols \<and> cols ! i = c}"
  by (auto simp: color_indices_def)

lemma select_color_Inr:
  assumes ok: "argpartition_ok ap" and sel: "select_color ap cols w c K = Inr mi"
  shows "distinct mi \<and> set mi \<subseteq> set (color_indices cols c)"
proof -
  let ?I = "color_indices cols c"
  obtain p where p: "np_argpartition ap (map (\<lambda>i. w ! i) ?I) (K - 1) = Inr p"
    and mi: "mi = map (\<lambda>j. ?I ! j) (py_slice_to K p)"
    using sel by (auto simp: select_color_def Let_def split: sum.splits)
  from np_argpartition_Inr[OF ok p] have dp: "distinct p" and sp: "set p = {0..<length ?I}"
    by auto
  have sub: "set (py_slice_to K p) \<subseteq> {0..<length ?I}"
    using set_py_slice_to[of K p] sp by auto
  have "distinct (py_slice_to K p)" using dp by (rule distinct_py_slice_to)
  moreover have "inj_on (\<lambda>j. ?I ! j) (set (py_slice_to K p))"
  proof (rule inj_onI)
    fix x y assume "x \<in> set (py_slice_to K p)" "y \<in> set (py_slice_to K p)"
      and e: "?I ! x = ?I ! y"
    then have "x < length ?I" "y < length ?I" using sub by auto
    then show "x = y" using e color_indices_props(1)[of cols c]
      by (simp add: nth_eq_iff_index_eq)
  qed
  ultimately have "distinct mi" unfolding mi by (simp add: distinct_map)
  moreover have "set mi \<subseteq> set ?I" unfolding mi using sub by auto
  ultimately show ?thesis by simp
qed

lemma select_color_quota:
  assumes ok: "argpartition_ok ap" and K1: "1 \<le> K"
    and K2: "K \<le> int (length (color_indices cols c))"
  shows "\<exists>mi. select_color ap cols w c K = Inr mi \<and> length mi = nat K \<and> distinct mi \<and>
           set mi \<subseteq> set (color_indices cols c) \<and>
           (\<forall>i\<in>set mi. \<forall>j\<in>set (color_indices cols c) - set mi. w ! i \<le> w ! j)"
proof -
  let ?I = "color_indices cols c"
  let ?a = "map (\<lambda>i. w ! i) ?I"
  let ?kth = "nat (K - 1)"
  let ?p = "ap ?a ?kth"
  let ?mi = "map (\<lambda>j. ?I ! j) (take (nat K) ?p)"
  have K2': "K \<le> int (length ?a)" using K2 by simp
  have call: "np_argpartition ap ?a (K - 1) = Inr ?p"
    and post: "argpartition_post ?a ?kth ?p"
    using np_argpartition_quota[OF ok K1 K2'] by auto
  have sel: "select_color ap cols w c K = Inr ?mi"
    using call K1 by (simp add: select_color_def Let_def py_slice_to_def)
  have dp: "distinct ?p" and sp: "set ?p = {0..<length ?I}"
    using post by (auto simp: argpartition_post_def)
  have lp: "length ?p = length ?I"
    using dp sp by (metis distinct_card card_atLeastLessThan diff_zero)
  have len: "length ?mi = nat K" using lp K2 by simp
  from select_color_Inr[OF ok sel]
  have dm: "distinct ?mi" and sub: "set ?mi \<subseteq> set ?I" by auto
  have part: "\<forall>i\<in>set ?mi. \<forall>j\<in>set ?I - set ?mi. w ! i \<le> w ! j"
  proof (intro ballI)
    fix i j assume i: "i \<in> set ?mi" and j: "j \<in> set ?I - set ?mi"
    from i obtain m where m: "m < nat K" "m < length ?p" and im: "i = ?I ! (?p ! m)"
      by (auto simp: in_set_conv_nth)
    from j obtain x where x: "x < length ?I" and jx: "j = ?I ! x"
      by (auto simp: in_set_conv_nth)
    from x sp obtain m' where m': "m' < length ?p" and xm: "x = ?p ! m'"
      by (metis atLeastLessThan_iff in_set_conv_nth zero_le)
    have "\<not> m' < nat K"
    proof
      assume "m' < nat K"
      then have "?p ! m' \<in> set (take (nat K) ?p)"
        using m' by (auto simp: in_set_conv_nth intro!: exI[of _ m'])
      then have "j \<in> set ?mi" using jx xm by auto
      then show False using j by simp
    qed
    then have km': "?kth < m'" using K1 by linarith
    have kl: "?kth < length ?p" using lp K1 K2 by linarith
    have pm: "?p ! m < length ?I" using sp m(2) nth_mem by fastforce
    have pk: "?p ! ?kth < length ?I" using sp kl nth_mem by fastforce
    have a1: "?a ! (?p ! m) \<le> ?a ! (?p ! ?kth)"
    proof (cases "m < ?kth")
      case True
      then show ?thesis using post m(2) by (simp add: argpartition_post_def)
    next
      case False
      then have "m = ?kth" using m(1) by linarith
      then show ?thesis by simp
    qed
    have a2: "?a ! (?p ! ?kth) \<le> ?a ! (?p ! m')"
      using post m' km' by (simp add: argpartition_post_def)
    have "w ! i = ?a ! (?p ! m)" using im pm by simp
    moreover have "w ! j = ?a ! (?p ! m')" using jx xm x by simp
    ultimately show "w ! i \<le> w ! j" using a1 a2 by linarith
  qed
  show ?thesis using sel len dm sub part by blast
qed

lemma length_add_at [simp]: "length (add_at Xv idx) = length Xv"
  by (simp add: add_at_def)

lemma nth_add_at:
  "i < length Xv \<Longrightarrow> add_at Xv idx ! i = (if i \<in> set idx then Xv ! i + 1 else Xv ! i)"
  by (simp add: add_at_def)

lemma color_loop_X:
  assumes "argpartition_ok ap"
    and "color_loop ap feats cols w qs (X0, S0, W0) = Inr (X1, S1, W1)"
    and "distinct (map fst qs)"
  shows "length X1 = length X0 \<and>
         (\<forall>i<length X0. X1 ! i = X0 ! i \<or>
            (X1 ! i = X0 ! i + 1 \<and> i < length cols \<and> cols ! i \<in> fst ` set qs))"
  using assms(2,3)
proof (induction qs arbitrary: X0 S0 W0)
  case Nil
  then show ?case by simp
next
  case (Cons q qs)
  obtain c K where q: "q = (c, K)" by (cases q)
  from Cons.prems(1) obtain mi where
    sel: "select_color ap cols w c K = Inr mi" and
    rest: "color_loop ap feats cols w qs
             (add_at X0 mi, S0 @ map (\<lambda>i. feats ! i) mi, W0 + (\<Sum>i\<leftarrow>mi. w ! i))
           = Inr (X1, S1, W1)"
    unfolding q by (auto split: sum.splits)
  from Cons.prems(2) have dq: "distinct (map fst qs)" and cq: "c \<notin> fst ` set qs"
    unfolding q by auto
  from Cons.IH[OF rest dq]
  have len: "length X1 = length X0"
    and step: "\<forall>i<length X0. X1 ! i = add_at X0 mi ! i \<or>
        (X1 ! i = add_at X0 mi ! i + 1 \<and> i < length cols \<and> cols ! i \<in> fst ` set qs)"
    by auto
  from select_color_Inr[OF assms(1) sel]
  have mic: "set mi \<subseteq> set (color_indices cols c)" by simp
  have "\<forall>i<length X0. X1 ! i = X0 ! i \<or>
            (X1 ! i = X0 ! i + 1 \<and> i < length cols \<and> cols ! i \<in> fst ` set (q # qs))"
  proof (intro allI impI)
    fix i assume i: "i < length X0"
    show "X1 ! i = X0 ! i \<or>
            (X1 ! i = X0 ! i + 1 \<and> i < length cols \<and> cols ! i \<in> fst ` set (q # qs))"
    proof (cases "i \<in> set mi")
      case True
      then have ic: "i < length cols" "cols ! i = c"
        using mic by (auto simp: color_indices_props)
      then have "cols ! i \<notin> fst ` set qs" using cq by simp
      then have "X1 ! i = add_at X0 mi ! i" using step i by blast
      then show ?thesis using True i ic q by (simp add: nth_add_at)
    next
      case False
      then have "add_at X0 mi ! i = X0 ! i" using i by (simp add: nth_add_at)
      then show ?thesis using step i by auto
    qed
  qed
  then show ?case using len by simp
qed

lemma color_loop_quota:
  assumes "argpartition_ok ap"
    and "\<forall>(c, K)\<in>set qs. 1 \<le> K \<and> K \<le> int (length (color_indices cols c))"
  shows "\<exists>acc. color_loop ap feats cols w qs (X0, S0, W0) = Inr acc"
  using assms(2)
proof (induction qs arbitrary: X0 S0 W0)
  case Nil
  then show ?case by simp
next
  case (Cons q qs)
  obtain c K where q: "q = (c, K)" by (cases q)
  from Cons.prems have K: "1 \<le> K" "K \<le> int (length (color_indices cols c))"
    and rest: "\<forall>(c, K)\<in>set qs. 1 \<le> K \<and> K \<le> int (length (color_indices cols c))"
    unfolding q by auto
  from select_color_quota[OF assms(1) K, of w] obtain mi where
    sel: "select_color ap cols w c K = Inr mi" by blast
  show ?case unfolding q using sel Cons.IH[OF rest] by simp
qed

lemma sum_list_scaled_ge:
  fixes d :: real
  assumes "length hs = length Ms" and "\<forall>x\<in>set hs. 0 \<le> x" and "\<forall>m\<in>set Ms. m \<le> 1"
    and "0 \<le> d"
  shows "(1 - d) * sum_list hs \<le> sum_list (map2 (\<lambda>hi Mi. hi * (1 - d * Mi)) hs Ms)"
  using assms(1,2,3)
proof (induction hs Ms rule: list_induct2)
  case Nil
  then show ?case by simp
next
  case (Cons x xs m ms)
  have "d * m \<le> d" using Cons.prems(2) assms(4) by (simp add: mult_left_le)
  then have "x * (1 - d) \<le> x * (1 - d * m)"
    using Cons.prems(1) by (intro mult_left_mono) auto
  moreover have "(1 - d) * sum_list xs \<le> sum_list (map2 (\<lambda>hi Mi. hi * (1 - d * Mi)) xs ms)"
    using Cons by simp
  ultimately show ?case by (simp add: algebra_simps)
qed

lemma map2_scaled_nonneg:
  fixes d :: real
  assumes "\<forall>x\<in>set hs. 0 \<le> x" and "\<forall>m\<in>set Ms. m \<le> 1" and "0 \<le> d" and "d \<le> 1"
  shows "\<forall>y\<in>set (map2 (\<lambda>hi Mi. hi * (1 - d * Mi)) hs Ms). 0 \<le> y"
proof
  fix y assume "y \<in> set (map2 (\<lambda>hi Mi. hi * (1 - d * Mi)) hs Ms)"
  then obtain x m where xm: "(x, m) \<in> set (zip hs Ms)" and y: "y = x * (1 - d * m)"
    by auto
  from xm have "x \<in> set hs" "m \<in> set Ms" by (auto dest: set_zip_leftD set_zip_rightD)
  then have x0: "0 \<le> x" and m1: "m \<le> 1" using assms by auto
  have "d * m \<le> d" using m1 assms(3) by (simp add: mult_left_le)
  then have "0 \<le> 1 - d * m" using assms(4) by linarith
  then show "0 \<le> y" unfolding y using x0 by simp
qed

lemma M_le_1:
  assumes "1 \<le> mu"
  shows "(1 / of_int mu) * ((-1 * of_nat c) + 1) \<le> (1::real)"
proof -
  have mu: "(1::real) \<le> of_int mu" using assms by simp
  have "(-1 * of_nat c) + 1 \<le> (1::real)" by simp
  also have "\<dots> \<le> of_int mu" by (rule mu)
  finally have "((-1 * of_nat c) + 1) / of_int mu \<le> (1::real)"
    using mu by (simp add: divide_le_eq)
  then show ?thesis by simp
qed

lemma sum_list_div_const:
  fixes c :: real
  shows "sum_list (map (\<lambda>x. x / c) xs) = sum_list xs / c"
  by (induction xs) (simp_all add: add_divide_distrib)

lemma update_h_ok:
  assumes mu: "1 \<le> mu" and se: "0 \<le> se" "se < 4"
    and len: "length Cs = length hv" and ok: "h_ok hv"
  shows "h_ok (update_h se mu Cs hv) \<and> length (update_h se mu Cs hv) = length hv"
proof -
  let ?M = "map (\<lambda>c. (1 / of_int mu) * ((-1 * of_nat c) + 1)) Cs :: real list"
  let ?h1 = "map2 (\<lambda>hi Mi. hi * (1 - (se / 4) * Mi)) hv ?M"
  have eq: "update_h se mu Cs hv = map (\<lambda>x. x / sum_list ?h1) ?h1"
    by (simp add: update_h_def Let_def)
  have M1: "\<forall>m\<in>set ?M. m \<le> 1" using M_le_1[OF mu] by auto
  have h0: "\<forall>x\<in>set hv. 0 \<le> x" and hs: "sum_list hv = 1" using ok by (auto simp: h_ok_def)
  have d: "0 \<le> se / 4" "se / 4 \<le> 1" "se / 4 < 1" using se by auto
  have lenM: "length hv = length ?M" using len by simp
  have "(1 - se / 4) * sum_list hv \<le> sum_list ?h1"
    by (rule sum_list_scaled_ge[OF lenM h0 M1 d(1)])
  then have pos: "0 < sum_list ?h1" using hs d(3) by simp
  have nn: "\<forall>y\<in>set ?h1. 0 \<le> y" by (rule map2_scaled_nonneg[OF h0 M1 d(1,2)])
  have "\<forall>y\<in>set (map (\<lambda>x. x / sum_list ?h1) ?h1). 0 \<le> y"
    using nn pos by auto
  moreover have "sum_list (map (\<lambda>x. x / sum_list ?h1) ?h1) = 1"
    using pos by (simp only: sum_list_div_const) simp
  moreover have "length (map (\<lambda>x. x / sum_list ?h1) ?h1) = length hv"
    using len by simp
  ultimately show ?thesis unfolding eq h_ok_def by blast
qed

lemma mwu_body_step:
  assumes "mwu_body ap draws P se mu t s = Inr f" and "f = Continue s' \<or> f = Break s'"
  shows "\<exists>X' S W.
           color_loop ap (features P) (colors P)
             (run_query (features P) (gamma P / 2) (h s)) (kis P) (X s, [], 0) = Inr (X', S, W) \<and>
           W < 1 \<and> X s' = X' \<and>
           h s' = update_h se mu (get_counts_in_range S (features P) (gamma P / 2)) (h s) \<and>
           (features P = [] \<or> mu \<noteq> 0) \<and>
           (if t > 100 \<and> nextSolutionCheckWait s = 0
            then nextSolutionCheckWait s' = draws (gen s) \<and> gen s' = gen s + 1
            else nextSolutionCheckWait s' = nextSolutionCheckWait s - 1 \<and> gen s' = gen s \<and>
                 f = Continue s')"
  using assms
  by (auto simp: mwu_body_def Let_def get_counts_in_range_def
      split: sum.splits prod.splits if_splits)

lemma mwu_body_Return_None:
  "mwu_body ap draws P se mu t s = Inr Return_None \<longleftrightarrow>
     (\<exists>W. round_W ap P s = Some W \<and> 1 \<le> W)"
  by (auto simp: mwu_body_def round_W_def Let_def split: sum.splits prod.splits if_splits)

lemma mwu_body_no_error:
  assumes "argpartition_ok ap"
    and "\<forall>(c, K)\<in>set (kis P). 1 \<le> K \<and> K \<le> int (length (color_indices (colors P) c))"
    and "mu \<noteq> 0"
  shows "\<exists>f. mwu_body ap draws P se mu t s = Inr f"
proof -
  from color_loop_quota[OF assms(1,2)] obtain acc where
    "color_loop ap (features P) (colors P)
       (run_query (features P) (gamma P / 2) (h s)) (kis P) (X s, [], 0) = Inr acc"
    by blast
  then show ?thesis using assms(3)
    by (cases acc) (auto simp: mwu_body_def Let_def)
qed

lemma mwu_body_error_zero_mu:
  assumes "mwu_body ap draws P se 0 t s = Inr f" and "features P \<noteq> []"
  shows "f = Return_None"
  using assms
  by (auto simp: mwu_body_def Let_def get_counts_in_range_def
      split: sum.splits prod.splits if_splits)

lemma length_get_counts [simp]: "length (get_counts_in_range Z feats r) = length feats"
  by (simp add: get_counts_in_range_def)

lemma mwu_body_state_ok:
  assumes ap: "argpartition_ok ap" and v: "valid_input P" and k2: "2 \<le> k P"
    and ok: "state_ok P t s"
    and step: "mwu_body ap draws P (scaled_eps_of (epsilon P)) (k P - 1) t s = Inr f"
    and f: "f = Continue s' \<or> f = Break s'"
  shows "state_ok P (Suc t) s' \<and> (\<forall>i<N P. X s ! i \<le> X s' ! i)"
proof -
  from mwu_body_step[OF step f] obtain X' S W where
    cl: "color_loop ap (features P) (colors P)
             (run_query (features P) (gamma P / 2) (h s)) (kis P) (X s, [], 0) = Inr (X', S, W)"
    and Xs: "X s' = X'"
    and hs: "h s' = update_h (scaled_eps_of (epsilon P)) (k P - 1)
                (get_counts_in_range S (features P) (gamma P / 2)) (h s)"
    by blast
  have dk: "distinct (map fst (kis P))" and lf: "length (features P) = N P"
    and e: "0 < epsilon P" "epsilon P < 1"
    using v by (auto simp: valid_input_def)
  have se: "0 \<le> scaled_eps_of (epsilon P)" "scaled_eps_of (epsilon P) < 4"
    using e by (auto simp: scaled_eps_of_def divide_less_eq)
  have lh: "length (h s) = N P" and hok: "h_ok (h s)" and lX: "length (X s) = N P"
    and Xb: "\<forall>x\<in>set (X s). 0 \<le> x \<and> x \<le> real t"
    using ok by (auto simp: state_ok_def)
  have mu: "1 \<le> k P - 1" using k2 by simp
  have lc: "length (get_counts_in_range S (features P) (gamma P / 2)) = length (h s)"
    using lf lh by simp
  from update_h_ok[OF mu se lc hok] hs
  have h': "h_ok (h s')" "length (h s') = N P" using lh by auto
  from color_loop_X[OF ap cl dk]
  have lX': "length X' = N P"
    and Xstep: "\<forall>i<N P. X' ! i = X s ! i \<or> X' ! i = X s ! i + 1"
    using lX by auto
  have "\<forall>x\<in>set (X s'). 0 \<le> x \<and> x \<le> real (Suc t)"
  proof
    fix x assume "x \<in> set (X s')"
    then obtain i where i: "i < N P" and x: "x = X' ! i"
      using Xs lX' by (auto simp: in_set_conv_nth)
    have "0 \<le> X s ! i \<and> X s ! i \<le> real t" using Xb i lX by (metis nth_mem)
    then show "0 \<le> x \<and> x \<le> real (Suc t)" using Xstep i x by auto
  qed
  moreover have "\<forall>i<N P. X s ! i \<le> X s' ! i" using Xstep Xs by auto
  ultimately show ?thesis using h' lX' Xs by (simp add: state_ok_def)
qed

lemma mwu_init_ok:
  assumes "0 < N P"
  shows "state_ok P 0 (mwu_init draws P)"
  using assms by (simp add: state_ok_def mwu_init_def h_ok_def sum_list_replicate)

lemma mwu_state_at_Suc:
  "mwu_state_at ap draws P (Suc t) = Some s' \<longleftrightarrow>
     (\<exists>s. mwu_state_at ap draws P t = Some s \<and>
          mwu_body ap draws P (scaled_eps_of (epsilon P)) (k P - 1) t s = Inr (Continue s'))"
  by (auto split: option.splits sum.splits flow.splits)

lemma mwu_state_at_ok:
  assumes ap: "argpartition_ok ap" and v: "valid_input P" and k2: "2 \<le> k P"
    and n: "0 < N P"
  shows "mwu_state_at ap draws P t = Some s \<Longrightarrow> state_ok P t s"
proof (induction t arbitrary: s)
  case 0
  then have "s = mwu_init draws P" by simp
  then show ?case using mwu_init_ok[OF n, of draws] by simp
next
  case (Suc t)
  from Suc.prems obtain s0 where s0: "mwu_state_at ap draws P t = Some s0"
    and st: "mwu_body ap draws P (scaled_eps_of (epsilon P)) (k P - 1) t s0 = Inr (Continue s)"
    unfolding mwu_state_at_Suc by blast
  from mwu_body_state_ok[OF ap v k2 Suc.IH[OF s0] st] show ?case by simp
qed

lemma mwu_state_at_cut:
  assumes "mwu_state_at ap draws P t = Some s"
    and "\<forall>s'. mwu_body ap draws P (scaled_eps_of (epsilon P)) (k P - 1) t s \<noteq> Inr (Continue s')"
  shows "t < t' \<Longrightarrow> mwu_state_at ap draws P t' = None"
proof (induction t')
  case 0
  then show ?case by simp
next
  case (Suc t')
  show ?case
  proof (cases "t = t'")
    case True
    then show ?thesis using assms by (auto split: sum.splits flow.splits)
  next
    case False
    then have "t < t'" using Suc.prems by simp
    then show ?thesis using Suc.IH by simp
  qed
qed

lemma mwu_for_exit:
  assumes "mwu_state_at ap draws P a = Some s"
    and "mwu_for ap draws P (scaled_eps_of (epsilon P)) (k P - 1) [a..<a + d] lt s = R"
  shows "case R of
        Inl e \<Rightarrow> \<exists>t s_t. a \<le> t \<and> t < a + d \<and> mwu_state_at ap draws P t = Some s_t \<and>
                  mwu_body ap draws P (scaled_eps_of (epsilon P)) (k P - 1) t s_t = Inl e
      | Inr Returned_None \<Rightarrow>
          \<exists>t s_t. a \<le> t \<and> t < a + d \<and> mwu_state_at ap draws P t = Some s_t \<and>
                  mwu_body ap draws P (scaled_eps_of (epsilon P)) (k P - 1) t s_t = Inr Return_None
      | Inr (Left_Loop lt' s') \<Rightarrow>
          (d = 0 \<and> lt' = lt \<and> s' = s) \<or>
          (\<exists>t s_t. a \<le> t \<and> t < a + d \<and> lt' = Some t \<and> mwu_state_at ap draws P t = Some s_t \<and>
             (mwu_body ap draws P (scaled_eps_of (epsilon P)) (k P - 1) t s_t = Inr (Break s') \<or>
              mwu_body ap draws P (scaled_eps_of (epsilon P)) (k P - 1) t s_t = Inr (Continue s')
                \<and> Suc t = a + d))"
  using assms
proof (induction d arbitrary: a s lt R)
  case 0
  then show ?case by auto
next
  case (Suc d)
  let ?B = "mwu_body ap draws P (scaled_eps_of (epsilon P)) (k P - 1)"
  have upt: "[a..<a + Suc d] = a # [Suc a..<Suc a + d]" by (simp add: upt_rec)
  show ?case
  proof (cases "?B a s")
    case (Inl e)
    then have "R = Inl e" using Suc.prems(2) unfolding upt by simp
    then show ?thesis using Inl Suc.prems(1) by auto
  next
    case (Inr f)
    show ?thesis
    proof (cases f)
      case Return_None
      then have "R = Inr Returned_None" using Inr Suc.prems(2) unfolding upt by simp
      then show ?thesis using Inr Return_None Suc.prems(1) by auto
    next
      case (Break s1)
      then have "R = Inr (Left_Loop (Some a) s1)" using Inr Suc.prems(2) unfolding upt by simp
      then show ?thesis using Inr Break Suc.prems(1) by auto
    next
      case (Continue s1)
      then have R: "mwu_for ap draws P (scaled_eps_of (epsilon P)) (k P - 1)
                      [Suc a..<Suc a + d] (Some a) s1 = R"
        using Inr Suc.prems(2) unfolding upt by simp
      have s1: "mwu_state_at ap draws P (Suc a) = Some s1"
        using Suc.prems(1) Inr Continue by simp
      note IH = Suc.IH[OF s1 R]
      show ?thesis
      proof (cases R)
        case (Inl e)
        with IH show ?thesis by (auto intro: Suc_leD)
      next
        case (Inr ex)
        show ?thesis
        proof (cases ex)
          case Returned_None
          with IH Inr show ?thesis by (auto intro: Suc_leD)
        next
          case (Left_Loop lt' s')
          from IH Inr Left_Loop consider
            (now) "d = 0" "lt' = Some a" "s' = s1"
            | (later) t s_t where "Suc a \<le> t" "t < Suc a + d" "lt' = Some t"
              "mwu_state_at ap draws P t = Some s_t"
              "?B t s_t = Inr (Break s') \<or> ?B t s_t = Inr (Continue s') \<and> Suc t = Suc a + d"
            by auto
          then show ?thesis
          proof cases
            case now
            then have "?B a s = Inr (Continue s') \<and> Suc a = a + Suc d"
              using \<open>?B a s = Inr f\<close> Continue by simp
            then show ?thesis using Inr Left_Loop now Suc.prems(1) by auto
          next
            case later
            then have "a \<le> t \<and> t < a + Suc d \<and> lt' = Some t \<and>
                mwu_state_at ap draws P t = Some s_t \<and>
                (?B t s_t = Inr (Break s') \<or> ?B t s_t = Inr (Continue s') \<and> Suc t = a + Suc d)"
              by auto
            then show ?thesis using Inr Left_Loop by auto
          qed
        qed
      qed
    qed
  qed
qed

lemma mwu_run_exit:
  assumes "mwu_run ap draws P = R"
  shows "case R of
        Inl e \<Rightarrow> \<exists>t s_t. t < mwu_rounds P \<and> mwu_state_at ap draws P t = Some s_t \<and>
                  mwu_body ap draws P (scaled_eps_of (epsilon P)) (k P - 1) t s_t = Inl e
      | Inr Returned_None \<Rightarrow>
          \<exists>t s_t. t < mwu_rounds P \<and> mwu_state_at ap draws P t = Some s_t \<and>
                  mwu_body ap draws P (scaled_eps_of (epsilon P)) (k P - 1) t s_t = Inr Return_None
      | Inr (Left_Loop lt' s') \<Rightarrow>
          (mwu_rounds P = 0 \<and> lt' = None \<and> s' = mwu_init draws P) \<or>
          (\<exists>t s_t. t < mwu_rounds P \<and> lt' = Some t \<and> mwu_state_at ap draws P t = Some s_t \<and>
             (mwu_body ap draws P (scaled_eps_of (epsilon P)) (k P - 1) t s_t = Inr (Break s') \<or>
              mwu_body ap draws P (scaled_eps_of (epsilon P)) (k P - 1) t s_t = Inr (Continue s')
                \<and> Suc t = mwu_rounds P))"
proof -
  have s0: "mwu_state_at ap draws P 0 = Some (mwu_init draws P)" by simp
  have r: "mwu_for ap draws P (scaled_eps_of (epsilon P)) (k P - 1) [0..<0 + mwu_rounds P] None
             (mwu_init draws P) = R"
    using assms by (simp add: mwu_run_def)
  from mwu_for_exit[OF s0 r] show ?thesis by (simp split: sum.splits loop_exit.splits)
qed

lemma mwu_state_at_unique_stop:
  assumes t: "mwu_state_at ap draws P t = Some s"
    and nt: "\<forall>s'. mwu_body ap draws P (scaled_eps_of (epsilon P)) (k P - 1) t s \<noteq> Inr (Continue s')"
    and u: "mwu_state_at ap draws P u = Some s2"
    and nu: "\<forall>s'. mwu_body ap draws P (scaled_eps_of (epsilon P)) (k P - 1) u s2 \<noteq> Inr (Continue s')"
  shows "u = t \<and> s2 = s"
proof -
  have "\<not> t < u" using mwu_state_at_cut[OF t nt, of u] u by auto
  moreover have "\<not> u < t" using mwu_state_at_cut[OF u nu, of t] t by auto
  ultimately have "u = t" by simp
  then show ?thesis using t u by simp
qed

lemma mwu_run_Returned_None_iff:
  "mwu_run ap draws P = Inr Returned_None \<longleftrightarrow>
     (\<exists>t<mwu_rounds P. \<exists>s. mwu_state_at ap draws P t = Some s \<and>
        mwu_body ap draws P (scaled_eps_of (epsilon P)) (k P - 1) t s = Inr Return_None)"
  (is "?L \<longleftrightarrow> ?R")
proof
  assume ?L
  from mwu_run_exit[OF this] show ?R by auto
next
  let ?B = "mwu_body ap draws P (scaled_eps_of (epsilon P)) (k P - 1)"
  assume ?R
  then obtain t s where t: "t < mwu_rounds P" and st: "mwu_state_at ap draws P t = Some s"
    and b: "?B t s = Inr Return_None" by blast
  have nt: "\<forall>s'. ?B t s \<noteq> Inr (Continue s')" using b by simp
  obtain R where R: "mwu_run ap draws P = R" by simp
  note ex = mwu_run_exit[OF R]
  show ?L
  proof (cases R)
    case (Inl e)
    with ex obtain u s2 where u: "mwu_state_at ap draws P u = Some s2" and bu: "?B u s2 = Inl e"
      by auto
    have "\<forall>s'. ?B u s2 \<noteq> Inr (Continue s')" using bu by simp
    from mwu_state_at_unique_stop[OF st nt u this] b bu show ?thesis by simp
  next
    case (Inr x)
    show ?thesis
    proof (cases x)
      case Returned_None
      then show ?thesis using R Inr by simp
    next
      case (Left_Loop lt' s')
      with ex Inr t obtain u s2 where ut: "u < mwu_rounds P"
        and u: "mwu_state_at ap draws P u = Some s2"
        and bu: "?B u s2 = Inr (Break s') \<or> ?B u s2 = Inr (Continue s') \<and> Suc u = mwu_rounds P"
        by auto
      from bu show ?thesis
      proof
        assume br: "?B u s2 = Inr (Break s')"
        then have "\<forall>s'. ?B u s2 \<noteq> Inr (Continue s')" by simp
        from mwu_state_at_unique_stop[OF st nt u this] b br show ?thesis by simp
      next
        assume c: "?B u s2 = Inr (Continue s') \<and> Suc u = mwu_rounds P"
        then have "mwu_state_at ap draws P (Suc u) = Some s'"
          using u mwu_state_at_Suc[of ap draws P u s'] by blast
        moreover have "t < Suc u \<or> t = Suc u" using t c by linarith
        ultimately show ?thesis
          using mwu_state_at_cut[OF st nt, of "Suc u"] t c by auto
      qed
    qed
  qed
qed

lemma length_filter_split:
  assumes "c \<notin> set cs"
  shows "length (filter (\<lambda>i. f i = c) xs) + length (filter (\<lambda>i. f i \<in> set cs) xs)
         = length (filter (\<lambda>i. f i \<in> set (c # cs)) xs)"
  using assms by (induction xs) auto

lemma sum_color_classes:
  assumes "distinct cs"
  shows "(\<Sum>c\<leftarrow>cs. length (filter (\<lambda>i. f i = c) xs)) = length (filter (\<lambda>i. f i \<in> set cs) xs)"
  using assms
proof (induction cs)
  case Nil
  then show ?case by simp
next
  case (Cons c cs)
  then have "c \<notin> set cs" "distinct cs" by auto
  then show ?case using Cons.IH length_filter_split[of c cs f xs] by simp
qed

lemma sum_color_indices_le:
  assumes "distinct cs"
  shows "(\<Sum>c\<leftarrow>cs. length (color_indices cols c)) \<le> length cols"
proof -
  have "(\<Sum>c\<leftarrow>cs. length (color_indices cols c))
        = length (filter (\<lambda>i. cols ! i \<in> set cs) [0..<length cols])"
    unfolding color_indices_def by (rule sum_color_classes[OF assms])
  also have "\<dots> \<le> length [0..<length cols]" by (rule length_filter_le)
  finally show ?thesis by simp
qed

lemma quota_sum_le:
  assumes "\<forall>(c, K)\<in>set qs. K \<le> int (length (color_indices cols c))"
  shows "sum_list (map snd qs) \<le> int (\<Sum>c\<leftarrow>map fst qs. length (color_indices cols c))"
  using assms by (induction qs) auto

lemma valid_input_k_le_N:
  assumes "valid_input P"
  shows "k P \<le> int (N P)"
proof -
  have d: "distinct (map fst (kis P))"
    and q: "\<forall>(c, K)\<in>set (kis P). K \<le> int (length (color_indices (colors P) c))"
    and kk: "k P = sum_list (map snd (kis P))" and lc: "length (colors P) = N P"
    using assms by (auto simp: valid_input_def)
  have "k P \<le> int (\<Sum>c\<leftarrow>map fst (kis P). length (color_indices (colors P) c))"
    unfolding kk by (rule quota_sum_le[OF q])
  also have "\<dots> \<le> int (length (colors P))"
    using sum_color_indices_le[OF d, of "colors P"] by simp
  finally show ?thesis using lc by simp
qed

lemma scaled_eps_pos: "0 < eps \<Longrightarrow> 0 < scaled_eps_of eps"
  by (simp add: scaled_eps_of_def)

lemma mwu_T_pos:
  assumes "2 \<le> k P" and "2 \<le> N P" and "0 < epsilon P" and "0 < percent_theoretical_limit P"
  shows "0 < mwu_T P"
proof -
  have "0 < (scaled_eps_of (epsilon P))\<^sup>2" using scaled_eps_pos[OF assms(3)] by simp
  moreover have "(0::real) < 8 * of_int (k P - 1)" using assms(1) by simp
  ultimately have "0 < (8 * of_int (k P - 1)) / (scaled_eps_of (epsilon P))\<^sup>2"
    by (rule divide_pos_pos[rotated])
  moreover have "0 < ln (real (N P))" using assms(2) by simp
  ultimately have "0 < ((8 * of_int (k P - 1)) / (scaled_eps_of (epsilon P))\<^sup>2)
                     * ln (real (N P))"
    by (rule mult_pos_pos)
  then have "0 < ((8 * of_int (k P - 1)) / (scaled_eps_of (epsilon P))\<^sup>2)
                     * ln (real (N P)) * percent_theoretical_limit P"
    using assms(4) by (rule mult_pos_pos)
  then show ?thesis unfolding mwu_T_def .
qed

lemma mwu_rounds_pos:
  assumes "valid_input P" and "2 \<le> k P"
  shows "0 < mwu_rounds P"
proof -
  have "2 \<le> N P" using valid_input_k_le_N[OF assms(1)] assms(2) by linarith
  then have "0 < mwu_T P"
    using mwu_T_pos[of P] assms by (simp add: valid_input_def)
  then show ?thesis by (simp add: mwu_rounds_def)
qed

lemma mult_weight_upd_valid:
  assumes "valid_input P" and "2 \<le> k P"
  shows "mult_weight_upd ap draws P =
           (case mwu_run ap draws P of
             Inl e \<Rightarrow> Inl e
           | Inr Returned_None \<Rightarrow> Inr None
           | Inr (Left_Loop None s) \<Rightarrow> Inl UnboundLocalError
           | Inr (Left_Loop (Some t) s) \<Rightarrow> Inr (Some (map (\<lambda>x. x / (of_nat t + 1)) (X s))))"
proof -
  have e: "0 < epsilon P" using assms(1) by (simp add: valid_input_def)
  have "2 \<le> N P" using valid_input_k_le_N[OF assms(1)] assms(2) by linarith
  moreover have "1 + epsilon P / 4 \<noteq> 0" using e by (simp add: add_pos_pos less_imp_neq[symmetric])
  moreover have "(scaled_eps_of (epsilon P))\<^sup>2 \<noteq> 0" using scaled_eps_pos[OF e] by simp
  ultimately show ?thesis using assms(2) by (simp add: mult_weight_upd_def)
qed

lemma mwu_run_valid:
  assumes ap: "argpartition_ok ap" and v: "valid_input P" and k2: "2 \<le> k P"
  shows "mwu_run ap draws P = Inr Returned_None \<or>
         (\<exists>t s' s_t. mwu_run ap draws P = Inr (Left_Loop (Some t) s') \<and> t < mwu_rounds P \<and>
            mwu_state_at ap draws P t = Some s_t \<and>
            (mwu_body ap draws P (scaled_eps_of (epsilon P)) (k P - 1) t s_t = Inr (Break s') \<or>
             mwu_body ap draws P (scaled_eps_of (epsilon P)) (k P - 1) t s_t = Inr (Continue s')
               \<and> Suc t = mwu_rounds P))"
proof -
  let ?B = "mwu_body ap draws P (scaled_eps_of (epsilon P)) (k P - 1)"
  obtain R where R: "mwu_run ap draws P = R" by simp
  note ex = mwu_run_exit[OF R]
  have q: "\<forall>(c, K)\<in>set (kis P). 1 \<le> K \<and> K \<le> int (length (color_indices (colors P) c))"
    using v by (simp add: valid_input_def)
  have mu: "k P - 1 \<noteq> 0" using k2 by simp
  have noerr: "\<And>t s e. ?B t s \<noteq> Inl e"
    using mwu_body_no_error[OF ap q mu] by (metis sum.distinct(1))
  show ?thesis
  proof (cases R)
    case (Inl e)
    with ex noerr show ?thesis by auto
  next
    case (Inr x)
    show ?thesis
    proof (cases x)
      case Returned_None
      then show ?thesis using R Inr by simp
    next
      case (Left_Loop lt' s')
      have "mwu_rounds P \<noteq> 0" using mwu_rounds_pos[OF v k2] by simp
      with ex Inr Left_Loop show ?thesis unfolding R by auto
    qed
  qed
qed

subsection \<open>The small instance, evaluated\<close>

lemma argsort_ok: "argpartition_ok argsort"
  unfolding argpartition_ok_def
proof (intro allI impI)
  fix a :: "real list" and kth assume kth: "kth < length a"
  let ?p = "argsort a kth"
  have d: "distinct ?p" and s: "set ?p = {0..<length a}" and l: "length ?p = length a"
    by (simp_all add: argsort_def)
  have srt: "sorted (map (\<lambda>i. a ! i) ?p)" by (simp add: argsort_def)
  have "\<forall>i<length ?p. (i < kth \<longrightarrow> a ! (?p ! i) \<le> a ! (?p ! kth)) \<and>
                     (kth < i \<longrightarrow> a ! (?p ! kth) \<le> a ! (?p ! i))"
  proof (intro allI impI conjI)
    fix i assume i: "i < length ?p" and ik: "i < kth"
    have "map (\<lambda>i. a ! i) ?p ! i \<le> map (\<lambda>i. a ! i) ?p ! kth"
      using srt ik kth l by (intro sorted_nth_mono) auto
    then show "a ! (?p ! i) \<le> a ! (?p ! kth)" using i kth l by simp
  next
    fix i assume i: "i < length ?p" and ik: "kth < i"
    have "map (\<lambda>i. a ! i) ?p ! kth \<le> map (\<lambda>i. a ! i) ?p ! i"
      using srt ik i by (intro sorted_nth_mono) auto
    then show "a ! (?p ! kth) \<le> a ! (?p ! i)" using i kth l by simp
  qed
  then show "argpartition_post a kth ?p" using d s by (simp add: argpartition_post_def)
qed

lemma color_indices_small:
  "color_indices [''a'', ''a'', ''b''] ''a'' = [0, 1]"
  "color_indices [''a'', ''a'', ''b''] ''b'' = [2]"
  by (simp_all add: color_indices_def upt_rec)

lemma valid_P_small: "valid_input (P_small g)"
  by (simp add: valid_input_def P_small_def color_indices_small)

lemma ln3_bounds: "0 < ln (3::real)" "ln (3::real) \<le> 2"
proof -
  show "0 < ln (3::real)" by simp
  have "ln (3::real) \<le> 3 - 1" by (rule ln_le_minus_one) simp
  then show "ln (3::real) \<le> 2" by simp
qed

lemma mwu_T_small: "mwu_T (P_small g) = (81 / 200) * ln 3"
  by (simp add: mwu_T_def P_small_def scaled_eps_of_def power2_eq_square)

lemma mwu_rounds_small: "mwu_rounds (P_small g) = 1"
proof -
  have "0 < (81 / 200) * ln (3::real)" "(81 / 200) * ln (3::real) \<le> 1"
    using ln3_bounds by auto
  then have "\<lceil>(81 / 200) * ln (3::real)\<rceil> = 1"
    by (intro ceiling_unique) auto
  then show ?thesis by (simp add: mwu_rounds_def mwu_T_small)
qed

lemma run_query_small:
  "run_query [ [0], [1], [2]] (1 / 4) [a, b, c] = [a, b, c]"
  by (simp add: run_query_def in_ball_def sq_dist_def)

lemma argsort_2: "argsort [1 / 3, 1 / 3] 0 = [0, 1]" "argsort [1 / 3] 0 = [0]"
  by (simp_all add: argsort_def upt_rec)

lemma select_small:
  "select_color argsort [''a'', ''a'', ''b''] [1 / 3, 1 / 3, 1 / 3] ''a'' 1 = Inr [0]"
  "select_color argsort [''a'', ''a'', ''b''] [1 / 3, 1 / 3, 1 / 3] ''b'' 1 = Inr [2]"
  by (simp_all add: select_color_def color_indices_small np_argpartition_def argsort_2
      py_slice_to_def)

lemma color_loop_small:
  "color_loop argsort [ [0], [1], [2]] [''a'', ''a'', ''b''] [1 / 3, 1 / 3, 1 / 3]
     [(''a'', 1), (''b'', 1)]
     ([0, 0, 0], [], 0) = Inr ([1, 0, 1], [ [0], [2]], 2 / 3)"
  by (simp add: select_small add_at_def upt_rec)

lemma counts_small:
  "get_counts_in_range [ [0], [2]] [ [0], [1], [2]] (1 / 4) = [Suc 0, 0, Suc 0]"
  by (simp add: get_counts_in_range_def in_ball_def sq_dist_def)

lemma update_h_small:
  "update_h (4 / 9) 1 [Suc 0, 0, Suc 0] [1 / 3, 1 / 3, 1 / 3] = [9 / 26, 4 / 13, 9 / 26]"
  by (simp add: update_h_def)

lemma mwu_body_small:
  "mwu_body argsort draws (P_small (1 / 2)) (4 / 9) 1 0 (mwu_init draws (P_small (1 / 2)))
   = Inr (Continue \<lparr>h = [9 / 26, 4 / 13, 9 / 26], X = [1, 0, 1],
            nextSolutionCheckWait = draws 0 - 1, gen = 1\<rparr>)"
  by (simp add: mwu_body_def mwu_init_def P_small_def run_query_small color_loop_small
      counts_small update_h_small numeral_3_eq_3 del: color_loop.simps)

lemma mwu_run_small:
  "mwu_run argsort draws (P_small (1 / 2))
   = Inr (Left_Loop (Some 0) \<lparr>h = [9 / 26, 4 / 13, 9 / 26], X = [1, 0, 1],
            nextSolutionCheckWait = draws 0 - 1, gen = 1\<rparr>)"
proof -
  have e: "scaled_eps_of (epsilon (P_small (1 / 2))) = 4 / 9" "k (P_small (1 / 2)) - 1 = 1"
    by (simp_all add: scaled_eps_of_def P_small_def)
  show ?thesis
    unfolding mwu_run_def mwu_rounds_small e
    by (simp add: mwu_body_small)
qed

lemma mult_weight_upd_small:
  "mult_weight_upd argsort draws (P_small (1 / 2)) = Inr (Some [1, 0, 1])"
proof -
  have "k (P_small (1 / 2)) = 2" "epsilon (P_small (1 / 2)) = 1 / 2" "N (P_small (1 / 2)) = 3"
    by (simp_all add: P_small_def)
  then show ?thesis
    by (simp add: mult_weight_upd_def mwu_run_small scaled_eps_of_def)
qed

lemma mult_weight_upd_None_iff:
  assumes ap: "argpartition_ok ap" and v: "valid_input P" and k2: "2 \<le> k P"
  shows "mult_weight_upd ap draws P = Inr None \<longleftrightarrow> mwu_run ap draws P = Inr Returned_None"
  using mwu_run_valid[OF ap v k2, of draws]
  by (auto simp: mult_weight_upd_valid[OF v k2])

lemma mwu_exit_state_ok:
  assumes ap: "argpartition_ok ap" and v: "valid_input P" and k2: "2 \<le> k P"
    and st: "mwu_state_at ap draws P t = Some s_t"
    and b: "mwu_body ap draws P (scaled_eps_of (epsilon P)) (k P - 1) t s_t = Inr (Break s') \<or>
            mwu_body ap draws P (scaled_eps_of (epsilon P)) (k P - 1) t s_t = Inr (Continue s')"
  shows "state_ok P (Suc t) s'"
proof -
  have n: "0 < N P" using valid_input_k_le_N[OF v] k2 by linarith
  have ok: "state_ok P t s_t" by (rule mwu_state_at_ok[OF ap v k2 n st])
  from b show ?thesis
  proof
    assume "mwu_body ap draws P (scaled_eps_of (epsilon P)) (k P - 1) t s_t = Inr (Break s')"
    from mwu_body_state_ok[OF ap v k2 ok this] show ?thesis by simp
  next
    assume "mwu_body ap draws P (scaled_eps_of (epsilon P)) (k P - 1) t s_t = Inr (Continue s')"
    from mwu_body_state_ok[OF ap v k2 ok this] show ?thesis by simp
  qed
qed

lemma color_loop_mono:
  assumes "color_loop ap feats cols w qs (X0, S0, W0) = Inr (X1, S1, W1)"
  shows "length X1 = length X0 \<and> (\<forall>i<length X0. X0 ! i \<le> X1 ! i)"
  using assms
proof (induction qs arbitrary: X0 S0 W0)
  case Nil
  then show ?case by simp
next
  case (Cons q qs)
  obtain c K where q: "q = (c, K)" by (cases q)
  from Cons.prems obtain mi where
    rest: "color_loop ap feats cols w qs
             (add_at X0 mi, S0 @ map (\<lambda>i. feats ! i) mi, W0 + (\<Sum>i\<leftarrow>mi. w ! i))
           = Inr (X1, S1, W1)"
    unfolding q by (auto split: sum.splits)
  from Cons.IH[OF rest]
  have len: "length X1 = length X0"
    and step: "\<forall>i<length X0. add_at X0 mi ! i \<le> X1 ! i"
    by auto
  have "\<forall>i<length X0. X0 ! i \<le> X1 ! i"
  proof (intro allI impI)
    fix i assume i: "i < length X0"
    have "X0 ! i \<le> add_at X0 mi ! i" using i by (simp add: nth_add_at)
    also have "\<dots> \<le> X1 ! i" using step i by simp
    finally show "X0 ! i \<le> X1 ! i" .
  qed
  then show ?case using len by simp
qed

lemma mwu_body_X_mono:
  assumes "mwu_body ap draws P se mu t s = Inr f" and "f = Continue s' \<or> f = Break s'"
  shows "length (X s') = length (X s) \<and> (\<forall>i<length (X s). X s ! i \<le> X s' ! i)"
proof -
  from mwu_body_step[OF assms] obtain X' S W where
    cl: "color_loop ap (features P) (colors P)
             (run_query (features P) (gamma P / 2) (h s)) (kis P) (X s, [], 0) = Inr (X', S, W)"
    and Xs: "X s' = X'"
    by blast
  from color_loop_mono[OF cl] Xs show ?thesis by simp
qed

lemma mwu_state_at_X_mono:
  assumes "mwu_state_at ap draws P t = Some s"
  shows "mwu_state_at ap draws P (t + d) = Some s' \<Longrightarrow>
         length (X s') = length (X s) \<and> (\<forall>i<length (X s). X s ! i \<le> X s' ! i)"
proof (induction d arbitrary: s')
  case 0
  then show ?case using assms by simp
next
  case (Suc d)
  from Suc.prems obtain s1 where s1: "mwu_state_at ap draws P (t + d) = Some s1"
    and b: "mwu_body ap draws P (scaled_eps_of (epsilon P)) (k P - 1) (t + d) s1
            = Inr (Continue s')"
    using mwu_state_at_Suc[of ap draws P "t + d" s'] by auto
  from Suc.IH[OF s1] have a: "length (X s1) = length (X s)"
    "\<forall>i<length (X s). X s ! i \<le> X s1 ! i" by auto
  from mwu_body_X_mono[OF b] have c: "length (X s') = length (X s1)"
    "\<forall>i<length (X s1). X s1 ! i \<le> X s' ! i" by auto
  have "\<forall>i<length (X s). X s ! i \<le> X s' ! i"
  proof (intro allI impI)
    fix i assume i: "i < length (X s)"
    then have "X s ! i \<le> X s1 ! i" using a by simp
    also have "\<dots> \<le> X s' ! i" using c a i by simp
    finally show "X s ! i \<le> X s' ! i" .
  qed
  then show ?case using a c by simp
qed

lemma mwu_body_h_ok:
  assumes mu: "1 \<le> mu" and se: "0 \<le> se" "se < 4"
    and len: "length (features P) = length (h s)" and ok: "h_ok (h s)"
    and step: "mwu_body ap draws P se mu t s = Inr f"
    and f: "f = Continue s' \<or> f = Break s'"
  shows "h_ok (h s') \<and> length (h s') = length (h s)"
proof -
  from mwu_body_step[OF step f] obtain S where
    hs: "h s' = update_h se mu (get_counts_in_range S (features P) (gamma P / 2)) (h s)"
    by blast
  have lc: "length (get_counts_in_range S (features P) (gamma P / 2)) = length (h s)"
    using len by simp
  from update_h_ok[OF mu se lc ok] hs show ?thesis by simp
qed

lemma mwu_state_at_h_ok:
  assumes k2: "2 \<le> k P" and e: "0 < epsilon P" "epsilon P < 1"
    and lf: "length (features P) = N P" and n: "0 < N P"
  shows "mwu_state_at ap draws P t = Some s \<Longrightarrow> h_ok (h s) \<and> length (h s) = N P"
proof (induction t arbitrary: s)
  case 0
  then have "s = mwu_init draws P" by simp
  then show ?case using n by (simp add: mwu_init_def h_ok_def sum_list_replicate)
next
  case (Suc t)
  from Suc.prems obtain s0 where s0: "mwu_state_at ap draws P t = Some s0"
    and st: "mwu_body ap draws P (scaled_eps_of (epsilon P)) (k P - 1) t s0 = Inr (Continue s)"
    unfolding mwu_state_at_Suc by blast
  have se: "0 \<le> scaled_eps_of (epsilon P)" "scaled_eps_of (epsilon P) < 4"
    using e by (auto simp: scaled_eps_of_def divide_less_eq)
  have mu: "1 \<le> k P - 1" using k2 by simp
  from Suc.IH[OF s0] have ok: "h_ok (h s0)" and l: "length (h s0) = N P" by auto
  have len: "length (features P) = length (h s0)" using lf l by simp
  from mwu_body_h_ok[OF mu se len ok st] l show ?case by simp
qed

lemma mwu_state_at_small_1:
  "mwu_state_at argsort draws (P_small (1 / 2)) (Suc 0)
   = Some \<lparr>h = [9 / 26, 4 / 13, 9 / 26], X = [1, 0, 1],
            nextSolutionCheckWait = draws 0 - 1, gen = 1\<rparr>"
proof -
  have e: "scaled_eps_of (epsilon (P_small (1 / 2))) = 4 / 9" "k (P_small (1 / 2)) - 1 = 1"
    by (simp_all add: scaled_eps_of_def P_small_def)
  show ?thesis by (simp add: e mwu_body_small)
qed

subsection \<open>The early-stop counter and the long instance\<close>

lemma mwu_state_at_wait:
  assumes d: "draws 0 \<le> 100"
  shows "mwu_state_at ap draws P t = Some s \<Longrightarrow>
         nextSolutionCheckWait s = draws 0 - int t \<and> gen s = 1"
proof (induction t arbitrary: s)
  case 0
  then have "s = mwu_init draws P" by simp
  then show ?case by (simp add: mwu_init_def)
next
  case (Suc t)
  from Suc.prems obtain s0 where s0: "mwu_state_at ap draws P t = Some s0"
    and st: "mwu_body ap draws P (scaled_eps_of (epsilon P)) (k P - 1) t s0 = Inr (Continue s)"
    unfolding mwu_state_at_Suc by blast
  from Suc.IH[OF s0] have w: "nextSolutionCheckWait s0 = draws 0 - int t" and g: "gen s0 = 1"
    by auto
  have guard: "\<not> (t > 100 \<and> nextSolutionCheckWait s0 = 0)" using w d by auto
  from mwu_body_step[OF st] guard
  have "nextSolutionCheckWait s = nextSolutionCheckWait s0 - 1 \<and> gen s = gen s0" by auto
  then show ?case using w g by simp
qed

lemma mwu_body_no_Break:
  assumes "\<not> (t > 100 \<and> nextSolutionCheckWait s = 0)"
  shows "mwu_body ap draws P se mu t s \<noteq> Inr (Break s')"
proof
  assume b: "mwu_body ap draws P se mu t s = Inr (Break s')"
  from mwu_body_step[OF b] assms show False by auto
qed

lemma update_h_pos:
  assumes mu: "1 \<le> mu" and se: "0 \<le> se" "se < 4"
    and pos: "\<forall>x\<in>set hv. 0 < x" and ok: "h_ok hv" and len: "length Cs = length hv"
  shows "\<forall>x\<in>set (update_h se mu Cs hv). 0 < x"
proof -
  let ?M = "map (\<lambda>c. (1 / of_int mu) * ((-1 * of_nat c) + 1)) Cs :: real list"
  let ?h1 = "map2 (\<lambda>hi Mi. hi * (1 - (se / 4) * Mi)) hv ?M"
  have eq: "update_h se mu Cs hv = map (\<lambda>x. x / sum_list ?h1) ?h1"
    by (simp add: update_h_def Let_def)
  have M1: "\<forall>m\<in>set ?M. m \<le> 1" using M_le_1[OF mu] by auto
  have h0: "\<forall>x\<in>set hv. 0 \<le> x" and hs: "sum_list hv = 1" using ok by (auto simp: h_ok_def)
  have d: "0 \<le> se / 4" "se / 4 < 1" using se by auto
  have lenM: "length hv = length ?M" using len by simp
  have "(1 - se / 4) * sum_list hv \<le> sum_list ?h1"
    by (rule sum_list_scaled_ge[OF lenM h0 M1 d(1)])
  then have sp: "0 < sum_list ?h1" using hs d(2) by simp
  have "\<forall>y\<in>set ?h1. 0 < y"
  proof
    fix y assume "y \<in> set ?h1"
    then obtain x m where xm: "(x, m) \<in> set (zip hv ?M)" and y: "y = x * (1 - (se / 4) * m)"
      by auto
    from xm have "x \<in> set hv" "m \<in> set ?M" by (auto dest: set_zip_leftD set_zip_rightD)
    then have x0: "0 < x" and m1: "m \<le> 1" using pos M1 by auto
    have "(se / 4) * m \<le> se / 4" using m1 d(1) by (simp add: mult_left_le)
    then have "0 < 1 - (se / 4) * m" using d(2) by linarith
    then show "0 < y" unfolding y using x0 by simp
  qed
  then show ?thesis unfolding eq using sp by auto
qed

lemma mwu_body_h_pos:
  assumes mu: "1 \<le> mu" and se: "0 \<le> se" "se < 4"
    and len: "length (features P) = length (h s)" and ok: "h_ok (h s)"
    and pos: "\<forall>x\<in>set (h s). 0 < x"
    and step: "mwu_body ap draws P se mu t s = Inr f"
    and f: "f = Continue s' \<or> f = Break s'"
  shows "\<forall>x\<in>set (h s'). 0 < x"
proof -
  from mwu_body_step[OF step f] obtain S where
    hs: "h s' = update_h se mu (get_counts_in_range S (features P) (gamma P / 2)) (h s)"
    by blast
  have lc: "length (get_counts_in_range S (features P) (gamma P / 2)) = length (h s)"
    using len by simp
  from update_h_pos[OF mu se pos ok lc] hs show ?thesis by simp
qed

lemma valid_P_warm: "valid_input P_warm"
  by (simp add: valid_input_def P_warm_def color_indices_small)

lemma P_warm_fields:
  "k P_warm = 2" "N P_warm = 3" "features P_warm = [ [0], [1], [2]]"
  "colors P_warm = [''a'', ''a'', ''b'']" "kis P_warm = [(''a'', 1), (''b'', 1)]"
  "epsilon P_warm = 1 / 10" "gamma P_warm = 1 / 2" "scaled_eps_of (epsilon P_warm) = 4 / 41"
  by (simp_all add: P_warm_def scaled_eps_of_def)

lemma round_W_warm:
  assumes ap: "argpartition_ok ap" and hs: "h s = [a, b, c]"
    and pos: "0 < a" "0 < b" "0 < c" and sum: "a + b + c = 1"
  shows "\<exists>W. round_W ap P_warm s = Some W \<and> W < 1"
proof -
  let ?cols = "[''a'', ''a'', ''b'']"
  let ?w = "[a, b, c]"
  have Ka: "(1::int) \<le> int (length (color_indices ?cols ''a''))"
    and Kb: "(1::int) \<le> int (length (color_indices ?cols ''b''))"
    by (simp_all add: color_indices_small)
  have one: "(1::int) \<le> 1" by simp
  from select_color_quota[OF ap one Ka, of ?w] obtain m1 where
    s1: "select_color ap ?cols ?w ''a'' 1 = Inr m1" and l1: "length m1 = 1"
    and sub1: "set m1 \<subseteq> {0, 1}"
    by (auto simp: color_indices_small)
  from select_color_quota[OF ap one Kb, of ?w] obtain m2 where
    s2: "select_color ap ?cols ?w ''b'' 1 = Inr m2" and l2: "length m2 = 1"
    and sub2: "set m2 \<subseteq> {2}"
    by (auto simp: color_indices_small)
  from l1 obtain i where m1: "m1 = [i]" by (cases m1) auto
  from l2 obtain j where m2: "m2 = [j]" by (cases m2) auto
  have i: "i = 0 \<or> i = 1" using sub1 m1 by auto
  have j: "j = 2" using sub2 m2 by auto
  have W: "round_W ap P_warm s = Some (?w ! i + ?w ! j)"
    by (simp add: round_W_def P_warm_fields hs run_query_small s1 s2 m1 m2)
  have "?w ! i + ?w ! j < 1" using i j pos sum by auto
  then show ?thesis using W by blast
qed

lemma mwu_state_at_warm:
  assumes ap: "argpartition_ok ap" and d: "draws 0 \<le> 100"
  shows "\<exists>s. mwu_state_at ap draws P_warm t = Some s \<and> (\<forall>x\<in>set (h s). 0 < x)"
proof (induction t)
  case 0
  show ?case by (simp add: mwu_init_def P_warm_fields)
next
  case (Suc t)
  then obtain s where st: "mwu_state_at ap draws P_warm t = Some s"
    and pos: "\<forall>x\<in>set (h s). 0 < x" by blast
  have k2: "2 \<le> k P_warm" and n: "0 < N P_warm" by (simp_all add: P_warm_fields)
  from mwu_state_at_ok[OF ap valid_P_warm k2 n st]
  have ok: "h_ok (h s)" and lh: "length (h s) = 3"
    by (simp_all add: state_ok_def P_warm_fields)
  from lh obtain a b c where hs: "h s = [a, b, c]"
    by (auto simp: length_Suc_conv numeral_3_eq_3)
  have abc: "0 < a" "0 < b" "0 < c" "a + b + c = 1"
    using pos ok hs by (auto simp: h_ok_def)
  from round_W_warm[OF ap hs abc] obtain W where
    W: "round_W ap P_warm s = Some W" "W < 1" by blast
  let ?B = "mwu_body ap draws P_warm (scaled_eps_of (epsilon P_warm)) (k P_warm - 1) t s"
  have q: "\<forall>(c, K)\<in>set (kis P_warm).
             1 \<le> K \<and> K \<le> int (length (color_indices (colors P_warm) c))"
    using valid_P_warm by (simp add: valid_input_def)
  have mu0: "k P_warm - 1 \<noteq> 0" by (simp add: P_warm_fields)
  from mwu_body_no_error[OF ap q mu0] obtain f where f: "?B = Inr f" by blast
  have nn: "f \<noteq> Return_None"
    using f W mwu_body_Return_None[of ap draws P_warm _ _ t s] by auto
  from mwu_state_at_wait[OF d st] d
  have guard: "\<not> (t > 100 \<and> nextSolutionCheckWait s = 0)" by auto
  have nb: "\<And>s'. f \<noteq> Break s'" using f mwu_body_no_Break[OF guard] by metis
  from nn nb obtain s' where c: "f = Continue s'" by (cases f) auto
  have mu: "1 \<le> k P_warm - 1" by (simp add: P_warm_fields)
  have se: "0 \<le> scaled_eps_of (epsilon P_warm)" "scaled_eps_of (epsilon P_warm) < 4"
    unfolding P_warm_fields(8) by simp_all
  have len: "length (features P_warm) = length (h s)" using lh by (simp add: P_warm_fields)
  have "\<forall>x\<in>set (h s'). 0 < x"
    by (rule mwu_body_h_pos[OF mu se len ok pos f]) (simp add: c)
  moreover have "mwu_state_at ap draws P_warm (Suc t) = Some s'"
    using st f c by simp
  ultimately show ?case by blast
qed

lemma ln3_ge_1: "1 \<le> ln (3::real)"
  using exp_le by (simp add: ln_ge_iff)

lemma mwu_rounds_warm: "841 \<le> mwu_rounds P_warm"
proof -
  have T: "mwu_T P_warm = (1681 / 2) * ln 3"
    by (simp add: mwu_T_def P_warm_def scaled_eps_of_def power2_eq_square)
  have "840 < (1681 / 2) * ln (3::real)" using ln3_ge_1 by simp
  then have "840 < \<lceil>mwu_T P_warm\<rceil>" unfolding T by (simp only: less_ceiling_iff)
  then show ?thesis unfolding mwu_rounds_def by linarith
qed

lemma mwu_run_warm:
  assumes ap: "argpartition_ok ap" and d: "draws 0 \<le> 100"
  shows "\<exists>t s. mwu_run ap draws P_warm = Inr (Left_Loop (Some t) s)"
proof -
  have k2: "2 \<le> k P_warm" by (simp add: P_warm_fields)
  from mwu_run_valid[OF ap valid_P_warm k2, of draws]
  show ?thesis
  proof
    assume "mwu_run ap draws P_warm = Inr Returned_None"
    then obtain t s where st: "mwu_state_at ap draws P_warm t = Some s"
      and b: "mwu_body ap draws P_warm (scaled_eps_of (epsilon P_warm)) (k P_warm - 1) t s
              = Inr Return_None"
      unfolding mwu_run_Returned_None_iff by blast
    from mwu_state_at_warm[of ap draws "Suc t", OF ap d] st b show ?thesis by simp
  qed blast
qed

lemma P_warm_test_passes:
  assumes ap: "argpartition_ok ap"
    and st: "mwu_state_at ap draws P_warm t = Some s"
    and b: "mwu_body ap draws P_warm (scaled_eps_of (epsilon P_warm)) (k P_warm - 1) t s
            = Inr (Continue s')"
  shows "\<not> list_ex (\<lambda>x. x > 1 + epsilon P_warm)
            (run_query (features P_warm) (gamma P_warm / 2)
               (map (\<lambda>x. x / (of_nat t + 1)) (X s')))"
proof -
  have k2: "2 \<le> k P_warm" by (simp add: P_warm_fields)
  have "state_ok P_warm (Suc t) s'"
    using mwu_exit_state_ok[OF ap valid_P_warm k2 st] b by blast
  then have lX: "length (X s') = 3" and Xb: "\<forall>x\<in>set (X s'). x \<le> real t + 1"
    by (auto simp: state_ok_def P_warm_fields)
  from lX obtain a b c where X: "X s' = [a, b, c]"
    by (auto simp: length_Suc_conv numeral_3_eq_3)
  have "a \<le> real t + 1" "b \<le> real t + 1" "c \<le> real t + 1" using Xb X by auto
  then show ?thesis
    by (auto simp: P_warm_fields(3,6,7) X run_query_small less_divide_eq)
qed

subsection \<open>The iteration count and the exceptions of an iteration\<close>

lemma spec_T_small: "spec_T (P_small g) < 1"
proof -
  define c where "c = \<lceil>(81 / 2) * ln (3::real)\<rceil>"
  have "(81 / 2) * ln (3::real) \<le> 81" using ln3_bounds(2) by simp
  then have "c \<le> 81" unfolding c_def by (simp only: ceiling_le_iff)
  then have c: "real_of_int c \<le> 81" by linarith
  have "spec_T (P_small g) = (1 / 100) * of_int \<lceil>(81 / 2) * ln (3::real)\<rceil>"
    by (simp add: spec_T_def P_small_def scaled_eps_of_def power2_eq_square)
  then have "spec_T (P_small g) = (1 / 100) * of_int c" unfolding c_def .
  then show ?thesis using c by linarith
qed

lemma select_color_error:
  "select_color ap cols w c K = Inl e \<Longrightarrow> e = ValueError"
  by (auto simp: select_color_def np_argpartition_def Let_def split: sum.splits if_splits)

lemma color_loop_error:
  "color_loop ap feats cols w qs acc = Inl e \<Longrightarrow> e = ValueError"
proof (induction qs arbitrary: acc)
  case Nil
  then show ?case by simp
next
  case (Cons q qs)
  obtain c K where q: "q = (c, K)" by (cases q)
  obtain X0 S0 W0 where acc: "acc = (X0, S0, W0)" by (cases acc)
  show ?case
  proof (cases "select_color ap cols w c K")
    case (Inl e')
    then show ?thesis using Cons.prems select_color_error[OF Inl] unfolding q acc by simp
  next
    case (Inr mi)
    then show ?thesis using Cons.prems Cons.IH unfolding q acc by simp
  qed
qed

lemma mwu_body_error:
  assumes "mwu_body ap draws P se mu t s = Inl e"
  shows "e = ValueError \<or> e = ZeroDivisionError"
proof (cases "color_loop ap (features P) (colors P)
                (run_query (features P) (gamma P / 2) (h s)) (kis P) (X s, [], 0)")
  case (Inl e')
  then have "e = e'" using assms by (simp add: mwu_body_def)
  then show ?thesis using color_loop_error[OF Inl] by simp
next
  case (Inr acc)
  then show ?thesis using assms
    by (cases acc) (auto simp: mwu_body_def Let_def split: if_splits)
qed

lemma mwu_body_zero_mu:
  assumes "round_W ap P s = Some W" and "W < 1" and "features P \<noteq> []"
  shows "mwu_body ap draws P se 0 t s = Inl ZeroDivisionError"
  using assms
  by (auto simp: mwu_body_def round_W_def Let_def get_counts_in_range_def
      split: sum.splits prod.splits)

lemma mwu_T_zero:
  assumes "k P = 1 \<or> N P = 1"
  shows "mwu_rounds P = 0"
  using assms by (auto simp: mwu_rounds_def mwu_T_def)

subsection \<open>Ties in the selection\<close>

lemma color_indices_aaa: "color_indices [''a'', ''a'', ''a''] ''a'' = [0, 1, 2]"
  by (simp add: color_indices_def upt_rec)

lemma argselect_221: "argselect [2, 2, 1] (Suc 0) = [2, 1, 0]"
  by (simp add: argselect_def upt_rec numeral_2_eq_2 numeral_3_eq_3)

lemma spec_select_props:
  assumes K1: "1 \<le> K" and K2: "K \<le> int (length (color_indices cols c))"
  shows "length (spec_select cols w c K) = nat K"
    and "distinct (spec_select cols w c K)"
    and "set (spec_select cols w c K) \<subseteq> set (color_indices cols c)"
    and "\<forall>i\<in>set (spec_select cols w c K).
           \<forall>j\<in>set (color_indices cols c) - set (spec_select cols w c K). w ! i \<le> w ! j"
proof -
  let ?I = "color_indices cols c"
  let ?L = "sort_key (\<lambda>i. w ! i) ?I"
  have B: "spec_select cols w c K = take (nat K) ?L" by (simp add: spec_select_def)
  have dL: "distinct ?L" by (simp add: color_indices_props(1))
  have sL: "set ?L = set ?I" by simp
  show "length (spec_select cols w c K) = nat K" unfolding B using K2 by simp
  show "distinct (spec_select cols w c K)" unfolding B using dL by simp
  show "set (spec_select cols w c K) \<subseteq> set ?I"
    unfolding B using sL by (metis set_take_subset)
  have srt: "sorted (map (\<lambda>i. w ! i) (take (nat K) ?L @ drop (nat K) ?L))"
    by simp
  show "\<forall>i\<in>set (spec_select cols w c K).
           \<forall>j\<in>set ?I - set (spec_select cols w c K). w ! i \<le> w ! j"
  proof (intro ballI)
    fix i j assume i: "i \<in> set (spec_select cols w c K)"
      and j: "j \<in> set ?I - set (spec_select cols w c K)"
    have "set ?L = set (take (nat K) ?L) \<union> set (drop (nat K) ?L)"
      by (metis append_take_drop_id set_append)
    then have jd: "j \<in> set (drop (nat K) ?L)" using j sL unfolding B by auto
    have it: "i \<in> set (take (nat K) ?L)" using i unfolding B .
    from srt have "\<forall>x\<in>set (map (\<lambda>i. w ! i) (take (nat K) ?L)).
                   \<forall>y\<in>set (map (\<lambda>i. w ! i) (drop (nat K) ?L)). x \<le> y"
      unfolding map_append sorted_append by blast
    then show "w ! i \<le> w ! j" using it jd by auto
  qed
qed

lemma smallest_sets_equal:
  fixes f :: "nat \<Rightarrow> real"
  assumes fin: "finite I" and A: "A \<subseteq> I" and B: "B \<subseteq> I" and card: "card A = card B"
    and lowA: "\<forall>a\<in>A. \<forall>b\<in>I - A. f a \<le> f b"
    and lowB: "\<forall>a\<in>B. \<forall>b\<in>I - B. f a \<le> f b"
    and inj: "inj_on f I"
  shows "A = B"
proof -
  have fA: "finite A" and fB: "finite B" using fin A B by (auto intro: finite_subset)
  have "A \<subseteq> B"
  proof (rule ccontr)
    assume "\<not> A \<subseteq> B"
    then obtain a where a: "a \<in> A" "a \<notin> B" by blast
    have "\<not> B \<subseteq> A"
    proof
      assume "B \<subseteq> A"
      then have "B = A" using card fA by (simp add: card_subset_eq)
      then show False using a by simp
    qed
    then obtain b where b: "b \<in> B" "b \<notin> A" by blast
    have "f a \<le> f b" using lowA a(1) b B by auto
    moreover have "f b \<le> f a" using lowB b(1) a A by auto
    ultimately have "f a = f b" by simp
    then have "a = b" using inj a(1) b(1) A B by (auto dest: inj_onD)
    then show False using a b by simp
  qed
  then show ?thesis using card fB by (simp add: card_subset_eq)
qed

lemma argsort_3: "argsort [3, 1, 2] (Suc 0) = [1, 2, 0]"
  by (simp add: argsort_def upt_rec)

subsection \<open>The driver\<close>

lemma color_indices_aa: "color_indices [''a'', ''a''] ''a'' = [0, 1]"
  by (simp add: color_indices_def upt_rec)

lemma valid_P_all:
  assumes "0 < eps" "eps < 1" "0 < ptl" "ptl \<le> 1"
  shows "valid_input (P_all g eps ptl)"
  using assms by (simp add: valid_input_def P_all_def color_indices_aa)

lemma two_of_two:
  assumes "length mi = 2" and "distinct mi" and "set mi \<subseteq> {0, 1::nat}"
  shows "mi = [0, 1] \<or> mi = [1, 0]"
proof -
  from assms(1) obtain x y where m: "mi = [x, y]"
    by (auto simp: length_Suc_conv numeral_2_eq_2)
  then show ?thesis using assms(2,3) by auto
qed

lemma run_query_all:
  assumes "0 \<le> g"
  shows "\<exists>w0 w1. run_query [ [0], [1]] (g / 2) [1 / 2, 1 / 2] = [w0, w1] \<and>
           1 / 2 \<le> w0 \<and> 1 / 2 \<le> w1"
  using assms by (simp add: run_query_def in_ball_def sq_dist_def)

lemma round_W_all:
  assumes ap: "argpartition_ok ap" and g: "0 \<le> g"
  shows "\<exists>W. round_W ap (P_all g eps ptl) (mwu_init draws (P_all g eps ptl)) = Some W \<and> 1 \<le> W"
proof -
  from run_query_all[OF g] obtain w0 w1 where
    w: "run_query [ [0], [1]] (g / 2) [1 / 2, 1 / 2] = [w0, w1]"
    and w0: "1 / 2 \<le> w0" and w1: "1 / 2 \<le> w1" by blast
  let ?w = "[w0, w1]"
  have K1: "(1::int) \<le> 2" by simp
  have K2: "(2::int) \<le> int (length (color_indices [''a'', ''a''] ''a''))"
    by (simp add: color_indices_aa)
  from select_color_quota[OF ap K1 K2, of ?w] obtain mi where
    sel: "select_color ap [''a'', ''a''] ?w ''a'' 2 = Inr mi" and l: "length mi = 2"
    and d: "distinct mi" and sub: "set mi \<subseteq> {0, 1}"
    by (auto simp: color_indices_aa)
  from two_of_two[OF l d sub] have s: "(\<Sum>i\<leftarrow>mi. ?w ! i) = w0 + w1" by auto
  have init: "h (mwu_init draws (P_all g eps ptl)) = [1 / 2, 1 / 2]"
    by (simp add: mwu_init_def P_all_def numeral_2_eq_2)
  have "round_W ap (P_all g eps ptl) (mwu_init draws (P_all g eps ptl)) = Some (w0 + w1)"
    unfolding round_W_def init
    by (simp add: P_all_def w sel s)
  then show ?thesis using w0 w1 by auto
qed

lemma mult_weight_upd_all:
  assumes ap: "argpartition_ok ap" and g: "0 \<le> g"
    and e: "0 < eps" "eps < 1" and a: "0 < ptl" "ptl \<le> 1"
  shows "mult_weight_upd ap draws (P_all g eps ptl) = Inr None"
proof -
  let ?P = "P_all g eps ptl"
  have v: "valid_input ?P" by (rule valid_P_all[OF e a])
  have k2: "2 \<le> k ?P" by (simp add: P_all_def)
  have pos: "0 < mwu_rounds ?P" by (rule mwu_rounds_pos[OF v k2])
  from round_W_all[OF ap g, of eps ptl draws] obtain W where
    "round_W ap ?P (mwu_init draws ?P) = Some W" "1 \<le> W" by blast
  then have "mwu_body ap draws ?P (scaled_eps_of (epsilon ?P)) (k ?P - 1) 0 (mwu_init draws ?P)
             = Inr Return_None"
    unfolding mwu_body_Return_None by blast
  moreover have "mwu_state_at ap draws ?P 0 = Some (mwu_init draws ?P)" by simp
  ultimately have "mwu_run ap draws ?P = Inr Returned_None"
    unfolding mwu_run_Returned_None_iff using pos by blast
  then show ?thesis using mult_weight_upd_None_iff[OF ap v k2] by simp
qed

subsection \<open>Selection by repeated minimum meets the contract\<close>

lemma first_min_from_spec:
  assumes "i \<le> minidx" and "minidx < j"
    and "\<forall>b. i \<le> b \<and> b < j \<longrightarrow> v ! (p ! minidx) \<le> v ! (p ! b)"
  shows "i \<le> first_min_from v p minidx j m \<and> first_min_from v p minidx j m < j + m \<and>
         (\<forall>b. i \<le> b \<and> b < j + m \<longrightarrow> v ! (p ! first_min_from v p minidx j m) \<le> v ! (p ! b))"
  using assms
proof (induction m arbitrary: minidx j)
  case 0
  then show ?case by simp
next
  case (Suc m)
  show ?case
  proof (cases "v ! (p ! j) < v ! (p ! minidx)")
    case True
    have a: "i \<le> j" using Suc.prems by simp
    have b: "j < Suc j" by simp
    have c: "\<forall>b. i \<le> b \<and> b < Suc j \<longrightarrow> v ! (p ! j) \<le> v ! (p ! b)"
    proof (intro allI impI)
      fix b assume "i \<le> b \<and> b < Suc j"
      then consider "b = j" | "i \<le> b \<and> b < j" by linarith
      then show "v ! (p ! j) \<le> v ! (p ! b)"
      proof cases
        case 1 then show ?thesis by simp
      next
        case 2
        then have "v ! (p ! minidx) \<le> v ! (p ! b)" using Suc.prems(3) by blast
        then show ?thesis using True by linarith
      qed
    qed
    from Suc.IH[OF a b c] True show ?thesis by simp
  next
    case False
    have b: "minidx < Suc j" using Suc.prems by simp
    have c: "\<forall>b. i \<le> b \<and> b < Suc j \<longrightarrow> v ! (p ! minidx) \<le> v ! (p ! b)"
    proof (intro allI impI)
      fix b assume "i \<le> b \<and> b < Suc j"
      then consider "b = j" | "i \<le> b \<and> b < j" by linarith
      then show "v ! (p ! minidx) \<le> v ! (p ! b)"
      proof cases
        case 1 then show ?thesis using False by simp
      next
        case 2 then show ?thesis using Suc.prems(3) by blast
      qed
    qed
    from Suc.IH[OF Suc.prems(1) b c] False show ?thesis by simp
  qed
qed

lemma dumb_select_spec:
  assumes "i + m \<le> length p"
    and "\<forall>a<i. \<forall>b. a < b \<and> b < length p \<longrightarrow> v ! (p ! a) \<le> v ! (p ! b)"
  shows "mset (dumb_select v p i m) = mset p \<and>
         (\<forall>a<i + m. \<forall>b. a < b \<and> b < length p \<longrightarrow>
            v ! (dumb_select v p i m ! a) \<le> v ! (dumb_select v p i m ! b))"
  using assms
proof (induction m arbitrary: p i)
  case 0
  then show ?case by simp
next
  case (Suc m)
  let ?n = "length p"
  let ?r = "first_min_from v p i (Suc i) (?n - Suc i)"
  let ?p' = "p[i := p ! ?r, ?r := p ! i]"
  have i: "i < ?n" using Suc.prems(1) by simp
  have base: "\<forall>b. i \<le> b \<and> b < Suc i \<longrightarrow> v ! (p ! i) \<le> v ! (p ! b)"
    by (auto simp: less_Suc_eq_le)
  from first_min_from_spec[of i i "Suc i" v p "?n - Suc i", OF _ _ base] i
  have r: "i \<le> ?r" "?r < ?n" and rmin: "\<forall>b. i \<le> b \<and> b < ?n \<longrightarrow> v ! (p ! ?r) \<le> v ! (p ! b)"
    by auto
  have len: "length ?p' = ?n" by simp
  have nth: "\<And>c. c < ?n \<Longrightarrow> ?p' ! c = (if c = ?r then p ! i else if c = i then p ! ?r else p ! c)"
    using i r by (simp add: nth_list_update)
  have ms: "mset ?p' = mset p" using i r(2) by (simp add: mset_swap)
  have pre: "\<forall>a<Suc i. \<forall>b. a < b \<and> b < length ?p' \<longrightarrow> v ! (?p' ! a) \<le> v ! (?p' ! b)"
  proof (intro allI impI)
    fix a b assume a: "a < Suc i" and ab: "a < b \<and> b < length ?p'"
    then have b: "b < ?n" "a < b" by simp_all
    have an: "a < ?n" using a i by simp
    show "v ! (?p' ! a) \<le> v ! (?p' ! b)"
    proof (cases "a = i")
      case True
      have "?p' ! a = p ! ?r" using True nth[OF an] by simp
      moreover have "\<exists>c. i \<le> c \<and> c < ?n \<and> ?p' ! b = p ! c"
      proof (cases "b = ?r")
        case True
        then have "?p' ! b = p ! i" using nth[OF b(1)] by simp
        then show ?thesis using i by blast
      next
        case False
        then have "?p' ! b = p ! b" using nth[OF b(1)] b(2) \<open>a = i\<close> by simp
        then show ?thesis using b \<open>a = i\<close> by (intro exI[of _ b]) simp
      qed
      ultimately show ?thesis using rmin by auto
    next
      case False
      then have ai: "a < i" using a by simp
      then have "?p' ! a = p ! a" using nth[OF an] r(1) by simp
      moreover have "\<exists>c. a < c \<and> c < ?n \<and> ?p' ! b = p ! c"
      proof (cases "b = ?r")
        case True
        then have "?p' ! b = p ! i" using nth[OF b(1)] by simp
        then show ?thesis using i ai by blast
      next
        case nr: False
        show ?thesis
        proof (cases "b = i")
          case True
          then have "?p' ! b = p ! ?r" using nth[OF b(1)] nr by simp
          moreover have "a < ?r" using ai r(1) by simp
          ultimately show ?thesis using r(2) by blast
        next
          case False
          then have "?p' ! b = p ! b" using nth[OF b(1)] nr by simp
          then show ?thesis using b by (intro exI[of _ b]) simp
        qed
      qed
      ultimately show ?thesis using Suc.prems(2) ai by auto
    qed
  qed
  have le: "Suc i + m \<le> length ?p'" using Suc.prems(1) by simp
  from Suc.IH[OF le pre]
  have "mset (dumb_select v ?p' (Suc i) m) = mset ?p' \<and>
        (\<forall>a<Suc i + m. \<forall>b. a < b \<and> b < length ?p' \<longrightarrow>
            v ! (dumb_select v ?p' (Suc i) m ! a) \<le> v ! (dumb_select v ?p' (Suc i) m ! b))" .
  moreover have "dumb_select v p i (Suc m) = dumb_select v ?p' (Suc i) m"
    by (simp add: Let_def)
  ultimately show ?case using ms len by simp
qed

lemma argselect_ok: "argpartition_ok argselect"
  unfolding argpartition_ok_def
proof (intro allI impI)
  fix a :: "real list" and kth assume kth: "kth < length a"
  let ?q = "argselect a kth"
  have le: "0 + Suc kth \<le> length [0..<length a]" using kth by simp
  from dumb_select_spec[of 0 "Suc kth" "[0..<length a]" a, OF le]
  have ms: "mset ?q = mset [0..<length a]"
    and low: "\<forall>x<Suc kth. \<forall>b. x < b \<and> b < length a \<longrightarrow> a ! (?q ! x) \<le> a ! (?q ! b)"
    by (simp_all add: argselect_def)
  have d: "distinct ?q" using ms by (metis distinct_upt mset_eq_imp_distinct_iff)
  have s: "set ?q = {0..<length a}" using ms by (metis mset_eq_setD set_upt)
  have l: "length ?q = length a" using ms by (metis mset_eq_length length_upt diff_zero)
  have "\<forall>i<length ?q. (i < kth \<longrightarrow> a ! (?q ! i) \<le> a ! (?q ! kth)) \<and>
                     (kth < i \<longrightarrow> a ! (?q ! kth) \<le> a ! (?q ! i))"
    using low l kth by auto
  then show "argpartition_post a kth ?q" using d s by (simp add: argpartition_post_def)
qed

subsection \<open>The selections of one iteration\<close>

lemma color_loop_exact:
  assumes ap: "argpartition_ok ap"
    and cl: "color_loop ap feats cols w qs (X0, S0, W0) = Inr (X1, S1, W1)"
    and dk: "distinct (map fst qs)"
  shows "\<exists>sels.
           list_all2 (\<lambda>(c, K) mi. select_color ap cols w c K = Inr mi) qs sels \<and>
           length X1 = length X0 \<and>
           (\<forall>i<length X0. X1 ! i = X0 ! i + (if i \<in> set (concat sels) then 1 else 0)) \<and>
           S1 = S0 @ map (\<lambda>i. feats ! i) (concat sels) \<and>
           W1 = W0 + (\<Sum>i\<leftarrow>concat sels. w ! i) \<and>
           (\<forall>i\<in>set (concat sels). i < length cols \<and> cols ! i \<in> fst ` set qs)"
  using cl dk
proof (induction qs arbitrary: X0 S0 W0)
  case Nil
  then show ?case by simp
next
  case (Cons q qs)
  obtain c K where q: "q = (c, K)" by (cases q)
  from Cons.prems(1) obtain mi where
    sel: "select_color ap cols w c K = Inr mi" and
    rest: "color_loop ap feats cols w qs
             (add_at X0 mi, S0 @ map (\<lambda>i. feats ! i) mi, W0 + (\<Sum>i\<leftarrow>mi. w ! i))
           = Inr (X1, S1, W1)"
    unfolding q by (auto split: sum.splits)
  from Cons.prems(2) have dq: "distinct (map fst qs)" and cq: "c \<notin> fst ` set qs"
    unfolding q by auto
  from Cons.IH[OF rest dq] obtain sels where
    la: "list_all2 (\<lambda>(c, K) mi. select_color ap cols w c K = Inr mi) qs sels"
    and len: "length X1 = length (add_at X0 mi)"
    and Xs: "\<forall>i<length (add_at X0 mi).
               X1 ! i = add_at X0 mi ! i + (if i \<in> set (concat sels) then 1 else 0)"
    and S: "S1 = (S0 @ map (\<lambda>i. feats ! i) mi) @ map (\<lambda>i. feats ! i) (concat sels)"
    and W: "W1 = (W0 + (\<Sum>i\<leftarrow>mi. w ! i)) + (\<Sum>i\<leftarrow>concat sels. w ! i)"
    and col: "\<forall>i\<in>set (concat sels). i < length cols \<and> cols ! i \<in> fst ` set qs"
    by blast
  from select_color_Inr[OF ap sel]
  have mic: "set mi \<subseteq> set (color_indices cols c)" by simp
  have disj: "set mi \<inter> set (concat sels) = {}"
  proof (rule ccontr)
    assume "set mi \<inter> set (concat sels) \<noteq> {}"
    then obtain i where i1: "i \<in> set mi" and i2: "i \<in> set (concat sels)" by blast
    from i1 mic have "cols ! i = c" by (auto simp: color_indices_props)
    moreover from i2 col have "cols ! i \<in> fst ` set qs" by blast
    ultimately show False using cq by simp
  qed
  let ?sels = "mi # sels"
  have la': "list_all2 (\<lambda>(c, K) mi. select_color ap cols w c K = Inr mi) (q # qs) ?sels"
    using la sel q by simp
  have X': "\<forall>i<length X0. X1 ! i = X0 ! i + (if i \<in> set (concat ?sels) then 1 else 0)"
  proof (intro allI impI)
    fix i assume i: "i < length X0"
    then have "X1 ! i = add_at X0 mi ! i + (if i \<in> set (concat sels) then 1 else 0)"
      using Xs by simp
    then show "X1 ! i = X0 ! i + (if i \<in> set (concat ?sels) then 1 else 0)"
      using i disj by (auto simp: nth_add_at)
  qed
  have col': "\<forall>i\<in>set (concat ?sels). i < length cols \<and> cols ! i \<in> fst ` set (q # qs)"
    using col mic q by (auto simp: color_indices_props)
  have "S1 = S0 @ map (\<lambda>i. feats ! i) (concat ?sels)" using S by simp
  moreover have "W1 = W0 + (\<Sum>i\<leftarrow>concat ?sels. w ! i)" using W by simp
  moreover have "length X1 = length X0" using len by simp
  ultimately show ?case using la' X' col' by blast
qed

lemma color_loop_of_sels:
  assumes "list_all2 (\<lambda>(c, K) mi. select_color ap cols w c K = Inr mi) qs sels"
  shows "\<exists>X1 S1. color_loop ap feats cols w qs (X0, S0, W0)
           = Inr (X1, S1, W0 + (\<Sum>i\<leftarrow>concat sels. w ! i))"
  using assms
proof (induction qs sels arbitrary: X0 S0 W0 rule: list_all2_induct)
  case Nil
  then show ?case by simp
next
  case (Cons q qs mi sels)
  obtain c K where q: "q = (c, K)" by (cases q)
  from Cons.hyps(1) have sel: "select_color ap cols w c K = Inr mi" unfolding q by simp
  from Cons.IH[of "add_at X0 mi" "S0 @ map (\<lambda>i. feats ! i) mi" "W0 + (\<Sum>i\<leftarrow>mi. w ! i)"]
  show ?case unfolding q using sel by (simp add: add.assoc)
qed

lemma color_loop_W:
  assumes "color_loop ap feats cols w qs (X0, S0, W0) = Inr (X1, S1, W1)"
  shows "\<exists>sels. list_all2 (\<lambda>(c, K) mi. select_color ap cols w c K = Inr mi) qs sels \<and>
           W1 = W0 + (\<Sum>i\<leftarrow>concat sels. w ! i)"
  using assms
proof (induction qs arbitrary: X0 S0 W0)
  case Nil
  then show ?case by simp
next
  case (Cons q qs)
  obtain c K where q: "q = (c, K)" by (cases q)
  from Cons.prems obtain mi where
    sel: "select_color ap cols w c K = Inr mi" and
    rest: "color_loop ap feats cols w qs
             (add_at X0 mi, S0 @ map (\<lambda>i. feats ! i) mi, W0 + (\<Sum>i\<leftarrow>mi. w ! i))
           = Inr (X1, S1, W1)"
    unfolding q by (auto split: sum.splits)
  from Cons.IH[OF rest] obtain sels where
    la: "list_all2 (\<lambda>(c, K) mi. select_color ap cols w c K = Inr mi) qs sels"
    and W: "W1 = (W0 + (\<Sum>i\<leftarrow>mi. w ! i)) + (\<Sum>i\<leftarrow>concat sels. w ! i)"
    by blast
  have "list_all2 (\<lambda>(c, K) mi. select_color ap cols w c K = Inr mi) (q # qs) (mi # sels)"
    using la sel q by simp
  moreover have "W1 = W0 + (\<Sum>i\<leftarrow>concat (mi # sels). w ! i)" using W by simp
  ultimately show ?case by blast
qed

lemma round_W_iff:
  "round_W ap P s = Some W \<longleftrightarrow>
     (\<exists>sels. list_all2 (\<lambda>(c, K) mi.
                 select_color ap (colors P) (run_query (features P) (gamma P / 2) (h s)) c K
                   = Inr mi) (kis P) sels \<and>
        W = (\<Sum>i\<leftarrow>concat sels. run_query (features P) (gamma P / 2) (h s) ! i))"
  (is "?L \<longleftrightarrow> ?R")
proof
  assume ?L
  then obtain X1 S1 where
    "color_loop ap (features P) (colors P) (run_query (features P) (gamma P / 2) (h s))
       (kis P) (X s, [], 0) = Inr (X1, S1, W)"
    by (auto simp: round_W_def split: sum.splits prod.splits)
  from color_loop_W[OF this] show ?R by simp
next
  assume ?R
  then obtain sels where
    la: "list_all2 (\<lambda>(c, K) mi.
                 select_color ap (colors P) (run_query (features P) (gamma P / 2) (h s)) c K
                   = Inr mi) (kis P) sels"
    and W: "W = (\<Sum>i\<leftarrow>concat sels. run_query (features P) (gamma P / 2) (h s) ! i)"
    by blast
  from color_loop_of_sels[OF la, of "features P" "X s" "[]" 0] W
  show ?L by (auto simp: round_W_def)
qed

lemma selections_quota:
  assumes ap: "argpartition_ok ap"
    and la: "list_all2 (\<lambda>(c, K) mi. select_color ap cols w c K = Inr mi) qs sels"
  shows "list_all2 (\<lambda>(c, K) mi. select_color ap cols w c K = Inr mi \<and>
            distinct mi \<and> set mi \<subseteq> set (color_indices cols c) \<and>
            (1 \<le> K \<and> K \<le> int (length (color_indices cols c)) \<longrightarrow> length mi = nat K)) qs sels"
  using la
proof (induction qs sels rule: list_all2_induct)
  case Nil
  then show ?case by simp
next
  case (Cons q qs mi sels)
  obtain c K where q: "q = (c, K)" by (cases q)
  from Cons.hyps(1) have sel: "select_color ap cols w c K = Inr mi" unfolding q by simp
  from select_color_Inr[OF ap sel]
  have a: "distinct mi" "set mi \<subseteq> set (color_indices cols c)" by auto
  have b: "length mi = nat K" if "1 \<le> K \<and> K \<le> int (length (color_indices cols c))"
    using select_color_quota[OF ap, of K cols c w] that sel by auto
  show ?case unfolding q using sel a b Cons.IH by simp
qed

lemma selections_valid:
  assumes ap: "argpartition_ok ap"
    and la: "list_all2 (\<lambda>(c, K) mi. select_color ap cols w c K = Inr mi) qs sels"
    and q: "\<forall>(c, K)\<in>set qs. 1 \<le> K \<and> K \<le> int (length (color_indices cols c))"
  shows "list_all2 (\<lambda>(c, K) mi. select_color ap cols w c K = Inr mi \<and>
            length mi = nat K \<and> distinct mi \<and> set mi \<subseteq> set (color_indices cols c)) qs sels"
  using la q
proof (induction qs sels rule: list_all2_induct)
  case Nil
  then show ?case by simp
next
  case (Cons q qs mi sels)
  obtain c K where q: "q = (c, K)" by (cases q)
  from Cons.hyps(1) have sel: "select_color ap cols w c K = Inr mi" unfolding q by simp
  from Cons.prems have K: "1 \<le> K" "K \<le> int (length (color_indices cols c))"
    and rest: "\<forall>(c, K)\<in>set qs. 1 \<le> K \<and> K \<le> int (length (color_indices cols c))"
    unfolding q by auto
  from select_color_Inr[OF ap sel]
  have a: "distinct mi" "set mi \<subseteq> set (color_indices cols c)" by auto
  have b: "length mi = nat K"
    using select_color_quota[OF ap K, of w] sel by auto
  show ?case unfolding q using sel a b Cons.IH[OF rest] by simp
qed

lemma selections_weaken:
  assumes "list_all2 (\<lambda>(c, K) mi. select_color ap cols w c K = Inr mi \<and>
            length mi = nat K \<and> distinct mi \<and> set mi \<subseteq> set (color_indices cols c)) qs sels"
  shows "list_all2 (\<lambda>(c, K) mi. select_color ap cols w c K = Inr mi) qs sels"
  using assms by (induction qs sels rule: list_all2_induct) auto

lemma run_query_all_quarter:
  "run_query [ [0], [1]] (1 / 4) [1 / 2, 1 / 2] = [1 / 2, 1 / 2]"
  by (simp add: run_query_def in_ball_def sq_dist_def)

lemma argsort_half: "argsort [1 / 2, 1 / 2] (Suc 0) = [0, 1]"
  by (simp add: argsort_def upt_rec)

lemma select_all_half:
  "select_color argsort [''a'', ''a''] [1 / 2, 1 / 2] ''a'' 2 = Inr [0, 1]"
  by (simp add: select_color_def color_indices_aa np_argpartition_def argsort_half
      py_slice_to_def)

subsection \<open>Rounding to doubles and the values of gamma\<close>

lemma two_powi_pos: "0 < (2::real) powi e"
  by (simp add: zero_less_power_int)

lemma floor_log2_powi: "\<lfloor>log 2 ((2::real) powi e)\<rfloor> = e"
proof -
  have "(2::real) powi e = 2 powr (of_int e)" by (simp add: powr_real_of_int')
  then have "log 2 ((2::real) powi e) = of_int e" by simp
  then show ?thesis by simp
qed

lemma double_quantum_powi: "double_quantum (2 powi e) = 2 powi (max e (- 1022) - 52)"
proof -
  have "\<bar>(2::real) powi e\<bar> = 2 powi e" using two_powi_pos[of e] by simp
  then show ?thesis by (simp add: double_quantum_def floor_log2_powi)
qed

lemma round_half_even_of_int: "round_half_even (of_int z) = z"
  by (simp add: round_half_even_def)

lemma round_half_even_half: "round_half_even (1 / 2) = 0"
proof -
  have "\<lfloor>(1 / 2 :: real)\<rfloor> = 0" by simp
  then show ?thesis by (simp add: round_half_even_def Let_def)
qed

lemma round_half_even_nonneg: "0 \<le> x \<Longrightarrow> 0 \<le> round_half_even x"
proof -
  assume "0 \<le> x"
  then have "0 \<le> \<lfloor>x\<rfloor>" by simp
  then show ?thesis by (simp add: round_half_even_def Let_def)
qed

lemma double_quantum_pos: "0 < double_quantum x"
  by (simp add: double_quantum_def zero_less_power_int)

lemma round_double_nonneg: "0 \<le> x \<Longrightarrow> 0 \<le> round_double x"
proof -
  assume x: "0 \<le> x"
  have "0 \<le> x / double_quantum x" using x double_quantum_pos[of x] by simp
  then have "0 \<le> round_half_even (x / double_quantum x)" by (rule round_half_even_nonneg)
  then show ?thesis using double_quantum_pos[of x] by (simp add: round_double_def)
qed

lemma round_double_powi:
  assumes "- 1074 \<le> e"
  shows "round_double (2 powi e) = 2 powi e"
proof -
  let ?m = "max e (- 1022) - 52"
  have me: "0 \<le> e - ?m" using assms by simp
  have q: "double_quantum (2 powi e) = 2 powi ?m" by (rule double_quantum_powi)
  have "(2::real) powi e / 2 powi ?m = 2 powi (e - ?m)" by (simp add: power_int_diff)
  also have "\<dots> = 2 ^ nat (e - ?m)" using me by (simp only: power_int_nonneg_exp)
  also have "\<dots> = of_int (2 ^ nat (e - ?m))" by simp
  finally have d: "(2::real) powi e / 2 powi ?m = of_int (2 ^ nat (e - ?m))" .
  have "round_double (2 powi e) = of_int (2 ^ nat (e - ?m)) * 2 powi ?m"
    using two_powi_pos[of e] by (simp only: round_double_def q d round_half_even_of_int) simp
  also have "\<dots> = ((2::real) powi e / 2 powi ?m) * 2 powi ?m" by (simp only: d)
  also have "\<dots> = 2 powi e" using two_powi_pos[of ?m] by simp
  finally show ?thesis .
qed

lemma round_double_below_least:
  assumes "e = - 1075"
  shows "round_double (2 powi e) = 0"
proof -
  have m: "max e (- 1022) - 52 = e + 1" using assms by simp
  have q: "double_quantum (2 powi e) = 2 powi (e + 1)"
    by (simp only: double_quantum_powi m)
  have "(2::real) powi (e + 1) = 2 powi e * 2" by (simp add: power_int_add)
  then have "(2::real) powi e / 2 powi (e + 1) = 1 / 2"
    using two_powi_pos[of e] by simp
  then  have d: "(2::real) powi e / 2 powi (e + 1) = 1 / 2" .
  show ?thesis by (simp only: round_double_def q d round_half_even_half) simp
qed

lemma powi_half: "(2::real) powi e * (1 / 2) = 2 powi (e - 1)"
  by (simp add: power_int_diff)

lemma round_double_0 [simp]: "round_double 0 = 0"
  by (simp add: round_double_def)

lemma falloff_step_nonneg:
  assumes "0 \<le> g" and "fe \<le> 1"
  shows "0 \<le> falloff_step fe g"
proof -
  have "0 \<le> round_double (1 - fe)" using assms(2) by (intro round_double_nonneg) simp
  then have "0 \<le> g * round_double (1 - fe)" using assms(1) by simp
  then show ?thesis unfolding falloff_step_def by (rule round_double_nonneg)
qed

lemma falloff_step_half: "falloff_step (1 / 2) g = round_double (g * (1 / 2))"
proof -
  have h: "(1 / 2 :: real) = 2 powi (- 1)" by (simp add: power_int_minus)
  have "round_double (2 powi (- 1)) = 2 powi (- 1)" by (rule round_double_powi) simp
  then have r: "round_double (1 / 2) = 1 / 2" by (simp only: h[symmetric])
  have m: "(1 - 1 / 2 :: real) = 1 / 2" by simp
  show ?thesis unfolding falloff_step_def by (simp only: m r)
qed

lemma halving_exact:
  "n \<le> 1075 \<Longrightarrow> (falloff_step (1 / 2) ^^ n) 2 = 2 powi (1 - int n)"
proof (induction n)
  case 0
  then show ?case by simp
next
  case (Suc n)
  then have IH: "(falloff_step (1 / 2) ^^ n) 2 = 2 powi (1 - int n)" by simp
  have e: "- 1074 \<le> 1 - int n - 1" using Suc.prems by simp
  have "falloff_step (1 / 2) (2 powi (1 - int n)) = 2 powi (1 - int n - 1)"
    using round_double_powi[OF e] by (simp only: falloff_step_half powi_half)
  moreover have "1 - int n - 1 = 1 - int (Suc n)" by simp
  ultimately have "falloff_step (1 / 2) (2 powi (1 - int n)) = 2 powi (1 - int (Suc n))"
    by (simp only:)
  then show ?case using IH by (simp only: funpow.simps o_apply)
qed

lemma halving_zero:
  "(falloff_step (1 / 2) ^^ Suc 1075) 2 = 0" "(falloff_step (1 / 2) ^^ Suc (Suc 1075)) 2 = 0"
proof -
  have a: "(falloff_step (1 / 2) ^^ 1075) 2 = 2 powi (1 - int 1075)"
    by (rule halving_exact) simp
  have e: "1 - int 1075 - 1 = - 1075" by simp
  have "falloff_step (1 / 2) (2 powi (1 - int 1075)) = 0"
    using round_double_below_least[OF e] by (simp only: falloff_step_half powi_half)
  then show b: "(falloff_step (1 / 2) ^^ Suc 1075) 2 = 0"
    using a by (simp only: funpow.simps o_apply)
  have "falloff_step (1 / 2) 0 = 0" by (simp add: falloff_step_half)
  then show "(falloff_step (1 / 2) ^^ Suc (Suc 1075)) 2 = 0"
    using b by (simp only: funpow.simps o_apply)
qed

lemma map_funpow_shift:
  "f x # map (\<lambda>i. (f ^^ Suc i) (f x)) [0..<n] = map (\<lambda>i. (f ^^ Suc i) x) [0..<Suc n]"
proof -
  have "map (\<lambda>i. (f ^^ Suc i) x) [0..<Suc n]
        = (f ^^ Suc 0) x # map (\<lambda>i. (f ^^ Suc i) x) (map Suc [0..<n])"
    by (simp only: upt_conv_Cons[of 0 "Suc n"] map_Suc_upt[symmetric]) simp
  also have "\<dots> = f x # map (\<lambda>i. (f ^^ Suc (Suc i)) x) [0..<n]"
    by (simp add: comp_def)
  also have "\<dots> = f x # map (\<lambda>i. (f ^^ Suc i) (f x)) [0..<n]"
    by (simp add: funpow_swap1)
  finally show ?thesis by simp
qed

lemma map_funpow_start:
  "x # map (\<lambda>i. (f ^^ Suc i) x) [0..<n] = map (\<lambda>i. (f ^^ i) x) [0..<Suc n]"
proof -
  have "map (\<lambda>i. (f ^^ i) x) [0..<Suc n]
        = (f ^^ 0) x # map (\<lambda>i. (f ^^ i) x) (map Suc [0..<n])"
    by (simp only: upt_conv_Cons[of 0 "Suc n"] map_Suc_upt[symmetric]) simp
  also have "\<dots> = x # map (\<lambda>i. (f ^^ Suc i) x) [0..<n]"
    by (simp add: comp_def)
  finally show ?thesis by simp
qed

lemma falloff_while_stuck:
  assumes none: "\<And>n g. 0 \<le> g \<Longrightarrow> solve n g = Inr None"
    and fe: "fe \<le> 1"
  shows "0 \<le> g \<Longrightarrow>
         falloff_while solve fe fuel g received (Inr None)
         = (received @ map (\<lambda>i. (falloff_step fe ^^ Suc i) g) [0..<fuel], None)"
proof (induction fuel arbitrary: g received)
  case 0
  then show ?case by simp
next
  case (Suc fuel)
  let ?g' = "falloff_step fe g"
  have g': "0 \<le> ?g'" by (rule falloff_step_nonneg[OF Suc.prems fe])
  have call: "solver_call solve received ?g' = (Inr None, received @ [?g'])"
    using none[OF g'] by (simp add: solver_call_def)
  have "falloff_while solve fe (Suc fuel) g received (Inr None)
        = falloff_while solve fe fuel ?g' (received @ [?g']) (Inr None)"
    by (simp add: call Let_def)
  also have "\<dots> = ((received @ [?g']) @ map (\<lambda>i. (falloff_step fe ^^ Suc i) ?g') [0..<fuel],
                     None)"
    by (rule Suc.IH[OF g'])
  also have "(received @ [?g']) @ map (\<lambda>i. (falloff_step fe ^^ Suc i) ?g') [0..<fuel]
             = received @ (?g' # map (\<lambda>i. (falloff_step fe ^^ Suc i) ?g') [0..<fuel])"
    by simp
  also have "?g' # map (\<lambda>i. (falloff_step fe ^^ Suc i) ?g') [0..<fuel]
             = map (\<lambda>i. (falloff_step fe ^^ Suc i) g) [0..<Suc fuel]"
    by (rule map_funpow_shift)
  finally show ?case .
qed

lemma epsilon_falloff_all:
  assumes ap: "argpartition_ok ap" and g0: "0 \<le> gamma_upper" and fe: "falloff_epsilon \<le> 1"
    and e: "0 < mwu_epsilon" "mwu_epsilon < 1" and a: "0 < ptl" "ptl \<le> 1"
  shows "epsilon_falloff ap draws [ [0], [1]] [''a'', ''a''] [(''a'', 2)] gamma_upper
           mwu_epsilon falloff_epsilon ptl fuel
         = (map (\<lambda>i. (falloff_step falloff_epsilon ^^ i) gamma_upper) [0..<Suc fuel], None)"
proof -
  let ?solve = "\<lambda>n g. mult_weight_upd ap (draws n) (P_all g mwu_epsilon ptl)"
  have none: "\<And>n g. 0 \<le> g \<Longrightarrow> ?solve n g = Inr None"
    using mult_weight_upd_all[OF ap _ e a] by simp
  have ef: "epsilon_falloff ap draws [ [0], [1]] [''a'', ''a''] [(''a'', 2)] gamma_upper
                mwu_epsilon falloff_epsilon ptl fuel
            = falloff_while ?solve falloff_epsilon fuel gamma_upper [gamma_upper]
                (?solve 0 gamma_upper)"
    by (simp add: epsilon_falloff_def solver_call_def P_all_def numeral_2_eq_2)
  have "falloff_while ?solve falloff_epsilon fuel gamma_upper [gamma_upper] (Inr None)
        = ([gamma_upper] @ map (\<lambda>i. (falloff_step falloff_epsilon ^^ Suc i) gamma_upper)
                             [0..<fuel], None)"
    by (rule falloff_while_stuck[where solve = ?solve, OF none fe g0])
  also have "[gamma_upper] @ map (\<lambda>i. (falloff_step falloff_epsilon ^^ Suc i) gamma_upper)
                               [0..<fuel]
             = map (\<lambda>i. (falloff_step falloff_epsilon ^^ i) gamma_upper) [0..<Suc fuel]"
    using map_funpow_start[of gamma_upper "falloff_step falloff_epsilon" fuel] by simp
  finally show ?thesis unfolding ef none[OF g0] .
qed

lemma map_funpow_cons:
  "x # map (\<lambda>i. (f ^^ i) (f x)) [0..<n] = map (\<lambda>i. (f ^^ i) x) [0..<Suc n]"
proof -
  have "(\<lambda>i. (f ^^ i) (f x)) = (\<lambda>i. (f ^^ Suc i) x)"
    by (rule ext) (simp add: funpow_swap1)
  then show ?thesis by (simp only: map_funpow_start)
qed

lemma falloff_while_received:
  "\<exists>m. fst (falloff_while solve fe fuel g (pre @ [g]) Xr)
         = pre @ map (\<lambda>i. (falloff_step fe ^^ i) g) [0..<Suc m]"
proof (induction fuel arbitrary: g pre Xr)
  case 0
  show ?case by (intro exI[of _ 0]) simp
next
  case (Suc fuel)
  show ?case
  proof (cases Xr)
    case (Inl e)
    then show ?thesis by (intro exI[of _ 0]) simp
  next
    case (Inr r)
    show ?thesis
    proof (cases r)
      case (Some Xv)
      then show ?thesis using Inr by (intro exI[of _ 0]) simp
    next
      case None
      let ?g' = "falloff_step fe g"
      obtain Xr' where call: "solver_call solve (pre @ [g]) ?g' = (Xr', (pre @ [g]) @ [?g'])"
        by (simp add: solver_call_def)
      from Suc.IH[of ?g' "pre @ [g]" Xr'] obtain m where
        m: "fst (falloff_while solve fe fuel ?g' ((pre @ [g]) @ [?g']) Xr')
            = (pre @ [g]) @ map (\<lambda>i. (falloff_step fe ^^ i) ?g') [0..<Suc m]"
        by blast
      have "falloff_while solve fe (Suc fuel) g (pre @ [g]) Xr
            = falloff_while solve fe fuel ?g' ((pre @ [g]) @ [?g']) Xr'"
        using Inr None call by (simp add: Let_def)
      moreover have "(pre @ [g]) @ map (\<lambda>i. (falloff_step fe ^^ i) ?g') [0..<Suc m]
                     = pre @ map (\<lambda>i. (falloff_step fe ^^ i) g) [0..<Suc (Suc m)]"
        using map_funpow_cons[of g "falloff_step fe" "Suc m"] by simp
      ultimately show ?thesis using m by (intro exI[of _ "Suc m"]) simp
    qed
  qed
qed

lemma epsilon_falloff_received:
  "\<exists>m. fst (epsilon_falloff ap draws feats cols quotas gamma_upper mwu_epsilon
                falloff_epsilon ptl fuel)
         = map (\<lambda>i. (falloff_step falloff_epsilon ^^ i) gamma_upper) [0..<Suc m]"
proof -
  let ?solve = "\<lambda>n g. mult_weight_upd ap (draws n)
                     \<lparr>gamma = g, N = length feats, k = sum_list (map snd quotas),
                      features = feats, colors = cols, kis = quotas,
                      epsilon = mwu_epsilon, percent_theoretical_limit = ptl\<rparr>"
  have e: "epsilon_falloff ap draws feats cols quotas gamma_upper mwu_epsilon
             falloff_epsilon ptl fuel
           = falloff_while ?solve falloff_epsilon fuel gamma_upper ([] @ [gamma_upper])
               (?solve 0 gamma_upper)"
    by (simp add: epsilon_falloff_def solver_call_def)
  from falloff_while_received[of ?solve falloff_epsilon fuel gamma_upper "[]"
      "?solve 0 gamma_upper"]
  show ?thesis unfolding e by simp
qed

subsection \<open>A run of the driver that ends\<close>

lemma run_query_small_far:
  assumes "2 \<le> r"
  shows "run_query [ [0], [1], [2]] r [1 / 3, 1 / 3, 1 / 3] = [1, 1, 1]"
proof -
  have "2 * 2 \<le> r * r" using assms by (intro mult_mono) auto
  then have "4 \<le> r * r" by simp
  then have "1 \<le> r * r" by simp
  then show ?thesis using assms \<open>4 \<le> r * r\<close>
    by (simp add: run_query_def in_ball_def sq_dist_def)
qed

lemma run_query_small_1:
  "run_query [ [0], [1], [2]] 1 [1 / 3, 1 / 3, 1 / 3] = [2 / 3, 1, 2 / 3]"
  by (simp add: run_query_def in_ball_def sq_dist_def)

lemma argsort_more:
  "argsort [1, 1] 0 = [0, 1]" "argsort [1] 0 = [0]"
  "argsort [2 / 3, 1] 0 = [0, 1]" "argsort [2 / 3] 0 = [0]"
  by (simp_all add: argsort_def upt_rec)

lemma round_W_small_far:
  assumes "4 \<le> g"
  shows "round_W argsort (P_small g) (mwu_init draws (P_small g)) = Some 2"
proof -
  have r: "2 \<le> g / 2" using assms by simp
  show ?thesis
    by (simp add: round_W_def P_small_def mwu_init_def numeral_3_eq_3
        run_query_small_far[OF r] select_color_def color_indices_small np_argpartition_def
        argsort_more py_slice_to_def)
qed

lemma round_W_small_2:
  "round_W argsort (P_small 2) (mwu_init draws (P_small 2)) = Some (4 / 3)"
  by (simp add: round_W_def P_small_def mwu_init_def numeral_3_eq_3
      run_query_small_1 select_color_def color_indices_small np_argpartition_def
      argsort_more py_slice_to_def)

lemma mult_weight_upd_small_None:
  assumes "round_W argsort (P_small g) (mwu_init draws (P_small g)) = Some W" and "1 \<le> W"
  shows "mult_weight_upd argsort draws (P_small g) = Inr None"
proof -
  let ?P = "P_small g"
  have k2: "2 \<le> k ?P" by (simp add: P_small_def)
  have "mwu_body argsort draws ?P (scaled_eps_of (epsilon ?P)) (k ?P - 1) 0 (mwu_init draws ?P)
        = Inr Return_None"
    unfolding mwu_body_Return_None using assms by blast
  moreover have "mwu_state_at argsort draws ?P 0 = Some (mwu_init draws ?P)" by simp
  moreover have "0 < mwu_rounds ?P" by (simp add: mwu_rounds_small)
  ultimately have "mwu_run argsort draws ?P = Inr Returned_None"
    unfolding mwu_run_Returned_None_iff by blast
  then show ?thesis using mult_weight_upd_None_iff[OF argsort_ok valid_P_small k2] by simp
qed

lemma mult_weight_upd_small_842:
  "mult_weight_upd argsort draws (P_small 8) = Inr None"
  "mult_weight_upd argsort draws (P_small 4) = Inr None"
  "mult_weight_upd argsort draws (P_small 2) = Inr None"
proof -
  show "mult_weight_upd argsort draws (P_small 8) = Inr None"
    by (rule mult_weight_upd_small_None[OF round_W_small_far]) simp_all
  show "mult_weight_upd argsort draws (P_small 4) = Inr None"
    by (rule mult_weight_upd_small_None[OF round_W_small_far]) simp_all
  show "mult_weight_upd argsort draws (P_small 2) = Inr None"
    by (rule mult_weight_upd_small_None[OF round_W_small_2]) simp
qed

lemma run_query_small_half:
  "run_query [ [0], [1], [2]] (1 / 2) [a, b, c] = [a, b, c]"
  by (simp add: run_query_def in_ball_def sq_dist_def)

lemma counts_small_half:
  "get_counts_in_range [ [0], [2]] [ [0], [1], [2]] (1 / 2) = [Suc 0, 0, Suc 0]"
  by (simp add: get_counts_in_range_def in_ball_def sq_dist_def)

lemma mult_weight_upd_small_1:
  "mult_weight_upd argsort draws (P_small 1) = Inr (Some [1, 0, 1])"
proof -
  have b: "mwu_body argsort draws (P_small 1) (4 / 9) 1 0 (mwu_init draws (P_small 1))
   = Inr (Continue \<lparr>h = [9 / 26, 4 / 13, 9 / 26], X = [1, 0, 1],
            nextSolutionCheckWait = draws 0 - 1, gen = 1\<rparr>)"
    by (simp add: mwu_body_def mwu_init_def P_small_def run_query_small_half color_loop_small
        counts_small_half update_h_small numeral_3_eq_3 del: color_loop.simps)
  have e: "scaled_eps_of (epsilon (P_small 1)) = 4 / 9" "k (P_small 1) - 1 = 1"
    by (simp_all add: scaled_eps_of_def P_small_def)
  have r: "mwu_run argsort draws (P_small 1)
   = Inr (Left_Loop (Some 0) \<lparr>h = [9 / 26, 4 / 13, 9 / 26], X = [1, 0, 1],
            nextSolutionCheckWait = draws 0 - 1, gen = 1\<rparr>)"
    unfolding mwu_run_def mwu_rounds_small e by (simp add: b)
  have "k (P_small 1) = 2" "epsilon (P_small 1) = 1 / 2" "N (P_small 1) = 3"
    by (simp_all add: P_small_def)
  then show ?thesis
    by (simp add: mult_weight_upd_def r scaled_eps_of_def)
qed

lemma falloff_step_half_vals:
  "falloff_step (1 / 2) 8 = 4" "falloff_step (1 / 2) 4 = 2" "falloff_step (1 / 2) 2 = 1"
proof -
  have p: "(4::real) = 2 powi 2" "(2::real) = 2 powi 1" "(1::real) = 2 powi 0" by simp_all
  have r4: "round_double 4 = 4" unfolding p(1) by (rule round_double_powi) simp
  have r2: "round_double 2 = 2" using round_double_powi[of 1] by simp
  have r1: "round_double 1 = 1" using round_double_powi[of 0] by simp
  show "falloff_step (1 / 2) 8 = 4" by (simp add: falloff_step_half r4)
  show "falloff_step (1 / 2) 4 = 2" by (simp add: falloff_step_half r2)
  show "falloff_step (1 / 2) 2 = 1" by (simp add: falloff_step_half r1)
qed

lemma epsilon_falloff_small:
  "epsilon_falloff argsort (\<lambda>n. draws9) [ [0], [1], [2]] [''a'', ''a'', ''b'']
     [(''a'', 1), (''b'', 1)] 8 (1 / 2) (1 / 2) (1 / 100) 4
   = ([8, 4, 2, 1], Some (Inr (1, [1, 0, 1])))"
proof -
  have rec: "\<And>g. \<lparr>gamma = g, N = length [ [0::real], [1], [2]],
                   k = sum_list (map snd [(''a'', 1), (''b'', 1::int)]),
                   features = [ [0], [1], [2]], colors = [''a'', ''a'', ''b''],
                   kis = [(''a'', 1), (''b'', 1)], epsilon = 1 / 2,
                   percent_theoretical_limit = 1 / 100\<rparr> = P_small g"
    by (simp add: P_small_def)
  have four: "(4::nat) = Suc (Suc (Suc (Suc 0)))" by simp
  show ?thesis
    unfolding epsilon_falloff_def rec four
    by (simp add: solver_call_def mult_weight_upd_small_842 mult_weight_upd_small_1
        falloff_step_half_vals Let_def)
qed

section \<open>The claims\<close>

text \<open>
  C1. For every valid input with \<open>k \<ge> 2\<close> the solver returns \<^verbatim>\<open>None\<close> exactly when some
  iteration it reaches has \<open>W \<ge> 1\<close>, where \<open>W\<close> is the sum of \<open>w_sums\<close> over the indices
  selected in that iteration: for each color of the quota map the \<open>K(c)\<close> distinct
  indices of that color which the selection returns, all colors taken together, and
  \<open>w_sums\<close> the ball sums of the weights \<open>h\<close> the iteration started with (the test comes
  after the loop over the colors and before \<open>h\<close> is updated). Otherwise the solver
  returns a vector of length \<open>N\<close>: no exception is raised, and \<^verbatim>\<open>None\<close> is the only
  failure signal.
\<close>

theorem C1_infeasible_iff:
  assumes ap: "argpartition_ok ap" and v: "valid_input P" and k2: "2 \<le> k P"
  shows "(mult_weight_upd ap draws P = Inr None \<longleftrightarrow>
            (\<exists>t<mwu_rounds P. \<exists>s sels.
                mwu_state_at ap draws P t = Some s \<and>
                list_all2 (\<lambda>(c, K) mi.
                   select_color ap (colors P) (run_query (features P) (gamma P / 2) (h s)) c K
                     = Inr mi \<and>
                   length mi = nat K \<and> distinct mi \<and>
                   set mi \<subseteq> set (color_indices (colors P) c)) (kis P) sels \<and>
                1 \<le> (\<Sum>i\<leftarrow>concat sels. run_query (features P) (gamma P / 2) (h s) ! i))) \<and>
         (mult_weight_upd ap draws P = Inr None \<or>
            (\<exists>Xv. mult_weight_upd ap draws P = Inr (Some Xv) \<and> length Xv = N P))"
proof
  let ?w = "\<lambda>s. run_query (features P) (gamma P / 2) (h s)"
  have q: "\<forall>(c, K)\<in>set (kis P). 1 \<le> K \<and> K \<le> int (length (color_indices (colors P) c))"
    using v by (simp add: valid_input_def)
  note strong = selections_valid[OF ap _ q]
  note weak = selections_weaken
  have "mult_weight_upd ap draws P = Inr None \<longleftrightarrow>
            (\<exists>t<mwu_rounds P. \<exists>s W. mwu_state_at ap draws P t = Some s \<and>
                round_W ap P s = Some W \<and> 1 \<le> W)"
    unfolding mult_weight_upd_None_iff[OF ap v k2] mwu_run_Returned_None_iff
      mwu_body_Return_None by blast
  also have "\<dots> \<longleftrightarrow> (\<exists>t<mwu_rounds P. \<exists>s sels.
                mwu_state_at ap draws P t = Some s \<and>
                list_all2 (\<lambda>(c, K) mi.
                   select_color ap (colors P) (?w s) c K = Inr mi \<and>
                   length mi = nat K \<and> distinct mi \<and>
                   set mi \<subseteq> set (color_indices (colors P) c)) (kis P) sels \<and>
                1 \<le> (\<Sum>i\<leftarrow>concat sels. ?w s ! i))"
    unfolding round_W_iff using strong weak by blast
  finally show "mult_weight_upd ap draws P = Inr None \<longleftrightarrow>
            (\<exists>t<mwu_rounds P. \<exists>s sels.
                mwu_state_at ap draws P t = Some s \<and>
                list_all2 (\<lambda>(c, K) mi.
                   select_color ap (colors P) (?w s) c K = Inr mi \<and>
                   length mi = nat K \<and> distinct mi \<and>
                   set mi \<subseteq> set (color_indices (colors P) c)) (kis P) sels \<and>
                1 \<le> (\<Sum>i\<leftarrow>concat sels. ?w s ! i))" .
next
  from mwu_run_valid[OF ap v k2, of draws]
  show "mult_weight_upd ap draws P = Inr None \<or>
            (\<exists>Xv. mult_weight_upd ap draws P = Inr (Some Xv) \<and> length Xv = N P)"
  proof
    assume "mwu_run ap draws P = Inr Returned_None"
    then show ?thesis using mult_weight_upd_None_iff[OF ap v k2] by simp
  next
    assume "\<exists>t s' s_t. mwu_run ap draws P = Inr (Left_Loop (Some t) s') \<and> t < mwu_rounds P \<and>
            mwu_state_at ap draws P t = Some s_t \<and>
            (mwu_body ap draws P (scaled_eps_of (epsilon P)) (k P - 1) t s_t = Inr (Break s') \<or>
             mwu_body ap draws P (scaled_eps_of (epsilon P)) (k P - 1) t s_t = Inr (Continue s')
               \<and> Suc t = mwu_rounds P)"
    then obtain t s' s_t where r: "mwu_run ap draws P = Inr (Left_Loop (Some t) s')"
      and st: "mwu_state_at ap draws P t = Some s_t"
      and b: "mwu_body ap draws P (scaled_eps_of (epsilon P)) (k P - 1) t s_t = Inr (Break s') \<or>
             mwu_body ap draws P (scaled_eps_of (epsilon P)) (k P - 1) t s_t = Inr (Continue s')"
      by blast
    have "state_ok P (Suc t) s'" by (rule mwu_exit_state_ok[OF ap v k2 st b])
    then have "length (X s') = N P" by (simp add: state_ok_def)
    then show ?thesis using r by (simp add: mult_weight_upd_valid[OF v k2])
  qed
qed

theorem C1_infeasible_iff_witness:
  "argpartition_ok argsort \<and>
   valid_input (P_small (1 / 2)) \<and> 2 \<le> k (P_small (1 / 2)) \<and>
   valid_input (P_all (1 / 2) (1 / 2) 1) \<and> 2 \<le> k (P_all (1 / 2) (1 / 2) 1) \<and>
   mult_weight_upd argsort draws9 (P_small (1 / 2)) = Inr (Some [1, 0, 1]) \<and>
   mult_weight_upd argsort draws9 (P_all (1 / 2) (1 / 2) 1) = Inr None \<and>
   (\<exists>t<mwu_rounds (P_all (1 / 2) (1 / 2) 1). \<exists>s sels.
      mwu_state_at argsort draws9 (P_all (1 / 2) (1 / 2) 1) t = Some s \<and>
      list_all2 (\<lambda>(c, K) mi.
         select_color argsort (colors (P_all (1 / 2) (1 / 2) 1))
           (run_query (features (P_all (1 / 2) (1 / 2) 1))
              (gamma (P_all (1 / 2) (1 / 2) 1) / 2) (h s)) c K = Inr mi \<and>
         length mi = nat K \<and> distinct mi \<and>
         set mi \<subseteq> set (color_indices (colors (P_all (1 / 2) (1 / 2) 1)) c))
        (kis (P_all (1 / 2) (1 / 2) 1)) sels \<and>
      1 \<le> (\<Sum>i\<leftarrow>concat sels.
              run_query (features (P_all (1 / 2) (1 / 2) 1))
                (gamma (P_all (1 / 2) (1 / 2) 1) / 2) (h s) ! i)) \<and>
   h (mwu_init draws9 (P_all (1 / 2) (1 / 2) 1)) = [1 / 2, 1 / 2] \<and>
   run_query [ [0], [1]] (1 / 4) [1 / 2, 1 / 2] = [1 / 2, 1 / 2] \<and>
   select_color argsort [''a'', ''a''] [1 / 2, 1 / 2] ''a'' 2 = Inr [0, 1] \<and>
   (\<Sum>i\<leftarrow>[0, 1]. [1 / 2, 1 / 2 :: real] ! i) = 1"
proof -
  have ks: "2 \<le> k (P_small (1 / 2))" by (simp add: P_small_def)
  have ka: "2 \<le> k (P_all (1 / 2) (1 / 2) 1)" by (simp add: P_all_def)
  have va: "valid_input (P_all (1 / 2) (1 / 2) 1)" by (rule valid_P_all) simp_all
  have none: "mult_weight_upd argsort draws9 (P_all (1 / 2) (1 / 2) 1) = Inr None"
    by (rule mult_weight_upd_all[OF argsort_ok]) simp_all
  have init: "h (mwu_init draws9 (P_all (1 / 2) (1 / 2) 1)) = [1 / 2, 1 / 2]"
    by (simp add: mwu_init_def P_all_def numeral_2_eq_2)
  have sum1: "(\<Sum>i\<leftarrow>[0, 1]. [1 / 2, 1 / 2 :: real] ! i) = 1" by simp
  from C1_infeasible_iff[OF argsort_ok va ka, of draws9] none
  have ex: "\<exists>t<mwu_rounds (P_all (1 / 2) (1 / 2) 1). \<exists>s sels.
      mwu_state_at argsort draws9 (P_all (1 / 2) (1 / 2) 1) t = Some s \<and>
      list_all2 (\<lambda>(c, K) mi.
         select_color argsort (colors (P_all (1 / 2) (1 / 2) 1))
           (run_query (features (P_all (1 / 2) (1 / 2) 1))
              (gamma (P_all (1 / 2) (1 / 2) 1) / 2) (h s)) c K = Inr mi \<and>
         length mi = nat K \<and> distinct mi \<and>
         set mi \<subseteq> set (color_indices (colors (P_all (1 / 2) (1 / 2) 1)) c))
        (kis (P_all (1 / 2) (1 / 2) 1)) sels \<and>
      1 \<le> (\<Sum>i\<leftarrow>concat sels.
              run_query (features (P_all (1 / 2) (1 / 2) 1))
                (gamma (P_all (1 / 2) (1 / 2) 1) / 2) (h s) ! i)"
    by blast
  show ?thesis
    by (intro conjI argsort_ok valid_P_small ks va ka mult_weight_upd_small
        none ex init run_query_all_quarter select_all_half sum1)
qed

text \<open>
  C4. When the solver returns a vector, the loop was left at some iteration \<open>t\<close>, the last
  one executed (by \<^verbatim>\<open>break\<close>, or by running out of iterations), the vector is \<open>X / (t + 1)\<close>
  for the accumulator \<open>X\<close> at that point, and each of its \<open>N\<close> entries lies in [0, 1].
\<close>

theorem C4_fractional_output:
  assumes ap: "argpartition_ok ap" and v: "valid_input P" and k2: "2 \<le> k P"
    and res: "mult_weight_upd ap draws P = Inr (Some R)"
  shows "\<exists>t s s_t.
           mwu_run ap draws P = Inr (Left_Loop (Some t) s) \<and> t < mwu_rounds P \<and>
           mwu_state_at ap draws P t = Some s_t \<and>
           (mwu_body ap draws P (scaled_eps_of (epsilon P)) (k P - 1) t s_t = Inr (Break s) \<or>
            mwu_body ap draws P (scaled_eps_of (epsilon P)) (k P - 1) t s_t = Inr (Continue s)
              \<and> Suc t = mwu_rounds P) \<and>
           R = map (\<lambda>x. x / (real t + 1)) (X s) \<and> length R = N P \<and>
           (\<forall>r\<in>set R. 0 \<le> r \<and> r \<le> 1)"
proof -
  from mwu_run_valid[OF ap v k2, of draws] res
  obtain t s s_t where r: "mwu_run ap draws P = Inr (Left_Loop (Some t) s)"
    and t: "t < mwu_rounds P"
    and st: "mwu_state_at ap draws P t = Some s_t"
    and b: "mwu_body ap draws P (scaled_eps_of (epsilon P)) (k P - 1) t s_t = Inr (Break s) \<or>
            mwu_body ap draws P (scaled_eps_of (epsilon P)) (k P - 1) t s_t = Inr (Continue s)
              \<and> Suc t = mwu_rounds P"
    by (auto simp: mult_weight_upd_valid[OF v k2])
  have R: "R = map (\<lambda>x. x / (real t + 1)) (X s)"
    using res r by (simp add: mult_weight_upd_valid[OF v k2])
  have b': "mwu_body ap draws P (scaled_eps_of (epsilon P)) (k P - 1) t s_t = Inr (Break s) \<or>
            mwu_body ap draws P (scaled_eps_of (epsilon P)) (k P - 1) t s_t = Inr (Continue s)"
    using b by blast
  have ok: "state_ok P (Suc t) s" by (rule mwu_exit_state_ok[OF ap v k2 st b'])
  then have len: "length R = N P" unfolding R by (simp add: state_ok_def)
  have "\<forall>r\<in>set R. 0 \<le> r \<and> r \<le> 1"
  proof
    fix r assume "r \<in> set R"
    then obtain x where x: "x \<in> set (X s)" and rx: "r = x / (real t + 1)"
      unfolding R by auto
    then have "0 \<le> x" "x \<le> real t + 1" using ok by (auto simp: state_ok_def)
    then show "0 \<le> r \<and> r \<le> 1" unfolding rx by (simp add: divide_le_eq)
  qed
  then show ?thesis using r t st b R len by blast
qed

theorem C4_fractional_output_witness:
  "argpartition_ok argsort \<and> valid_input (P_small (1 / 2)) \<and> 2 \<le> k (P_small (1 / 2)) \<and>
   mult_weight_upd argsort (\<lambda>i. 9) (P_small (1 / 2)) = Inr (Some [1, 0, 1]) \<and>
   (\<exists>t s s_t.
      mwu_run argsort (\<lambda>i. 9) (P_small (1 / 2)) = Inr (Left_Loop (Some t) s) \<and>
      t < mwu_rounds (P_small (1 / 2)) \<and>
      mwu_state_at argsort (\<lambda>i. 9) (P_small (1 / 2)) t = Some s_t \<and>
      (mwu_body argsort (\<lambda>i. 9) (P_small (1 / 2))
         (scaled_eps_of (epsilon (P_small (1 / 2)))) (k (P_small (1 / 2)) - 1) t s_t = Inr (Break s) \<or>
       mwu_body argsort (\<lambda>i. 9) (P_small (1 / 2))
         (scaled_eps_of (epsilon (P_small (1 / 2)))) (k (P_small (1 / 2)) - 1) t s_t = Inr (Continue s)
         \<and> Suc t = mwu_rounds (P_small (1 / 2))) \<and>
      [1, 0, 1] = map (\<lambda>x. x / (real t + 1)) (X s) \<and> length [1, 0, 1 :: real] = N (P_small (1 / 2)) \<and>
      (\<forall>r\<in>set [1, 0, 1 :: real]. 0 \<le> r \<and> r \<le> 1))"
proof -
  have k2: "2 \<le> k (P_small (1 / 2))" by (simp add: P_small_def)
  show ?thesis
    using C4_fractional_output[OF argsort_ok valid_P_small k2 mult_weight_upd_small, of "\<lambda>i. 9"]
      argsort_ok valid_P_small[of "1 / 2"] k2 mult_weight_upd_small[of "\<lambda>i. 9"]
    by blast
qed

text \<open>
  C5. Whenever an iteration of the loop runs to its end (or to its \<^verbatim>\<open>break\<close>), there is
  for every color of the quota map the list of indices its selection returned:
  distinct indices of points of that color, exactly \<open>K(c)\<close> of them when
  \<open>1 \<le> K(c) \<le> |I_c|\<close>, all of them positions of \<open>X\<close>; and the \<open>X\<close> the iteration leaves is
  the \<open>X\<close> it started with, plus 1 at exactly the selected indices and unchanged
  elsewhere. For a color with \<open>1 \<le> K(c) \<le> |I_c|\<close> the selection never raises. Hence an
  iteration never lowers an entry of \<open>X\<close>, and \<open>X\<close> at a later iteration is componentwise
  at least \<open>X\<close> at an earlier one.
\<close>

theorem C5_selection:
  assumes ap: "argpartition_ok ap" and dk: "distinct (map fst (kis P))"
    and lX: "length (X s) = length (colors P)"
    and step: "mwu_body ap draws P se mu t s = Inr (Continue s') \<or>
               mwu_body ap draws P se mu t s = Inr (Break s')"
  shows "(\<exists>sels.
            list_all2 (\<lambda>(c, K) mi.
               select_color ap (colors P) (run_query (features P) (gamma P / 2) (h s)) c K
                 = Inr mi \<and>
               distinct mi \<and> set mi \<subseteq> set (color_indices (colors P) c) \<and>
               (1 \<le> K \<and> K \<le> int (length (color_indices (colors P) c)) \<longrightarrow>
                  length mi = nat K)) (kis P) sels \<and>
            (\<forall>i\<in>set (concat sels). i < length (X s)) \<and>
            length (X s') = length (X s) \<and>
            (\<forall>i<length (X s).
               X s' ! i = X s ! i + (if i \<in> set (concat sels) then 1 else 0))) \<and>
         (\<forall>i<length (X s). X s ! i \<le> X s' ! i) \<and>
         (\<forall>c K w. 1 \<le> K \<and> K \<le> int (length (color_indices (colors P) c)) \<longrightarrow>
            (\<exists>mi. select_color ap (colors P) w c K = Inr mi \<and> length mi = nat K \<and>
               distinct mi \<and> set mi \<subseteq> set (color_indices (colors P) c))) \<and>
         (\<forall>u d s0 s1.
            mwu_state_at ap draws P u = Some s0 \<and> mwu_state_at ap draws P (u + d) = Some s1 \<longrightarrow>
            length (X s1) = length (X s0) \<and> (\<forall>i<length (X s0). X s0 ! i \<le> X s1 ! i))"
proof (intro conjI)
  let ?w = "run_query (features P) (gamma P / 2) (h s)"
  obtain f where f: "mwu_body ap draws P se mu t s = Inr f" "f = Continue s' \<or> f = Break s'"
    using step by blast
  from mwu_body_step[OF f] obtain X' S W where
    cl: "color_loop ap (features P) (colors P) ?w (kis P) (X s, [], 0) = Inr (X', S, W)"
    and Xs: "X s' = X'"
    by blast
  from color_loop_exact[OF ap cl dk] obtain sels where
    la: "list_all2 (\<lambda>(c, K) mi. select_color ap (colors P) ?w c K = Inr mi) (kis P) sels"
    and len: "length X' = length (X s)"
    and Xf: "\<forall>i<length (X s). X' ! i = X s ! i + (if i \<in> set (concat sels) then 1 else 0)"
    and col: "\<forall>i\<in>set (concat sels). i < length (colors P) \<and> colors P ! i \<in> fst ` set (kis P)"
    by blast
  have "list_all2 (\<lambda>(c, K) mi.
               select_color ap (colors P) ?w c K = Inr mi \<and>
               distinct mi \<and> set mi \<subseteq> set (color_indices (colors P) c) \<and>
               (1 \<le> K \<and> K \<le> int (length (color_indices (colors P) c)) \<longrightarrow>
                  length mi = nat K)) (kis P) sels"
    by (rule selections_quota[OF ap la])
  moreover have "\<forall>i\<in>set (concat sels). i < length (X s)" using col lX by simp
  ultimately show "\<exists>sels.
            list_all2 (\<lambda>(c, K) mi.
               select_color ap (colors P) ?w c K = Inr mi \<and>
               distinct mi \<and> set mi \<subseteq> set (color_indices (colors P) c) \<and>
               (1 \<le> K \<and> K \<le> int (length (color_indices (colors P) c)) \<longrightarrow>
                  length mi = nat K)) (kis P) sels \<and>
            (\<forall>i\<in>set (concat sels). i < length (X s)) \<and>
            length (X s') = length (X s) \<and>
            (\<forall>i<length (X s).
               X s' ! i = X s ! i + (if i \<in> set (concat sels) then 1 else 0))"
    using len Xf Xs by (intro exI[of _ sels]) simp
  show "\<forall>i<length (X s). X s ! i \<le> X s' ! i"
    using mwu_body_X_mono[OF f] by simp
next
  show "\<forall>c K w. 1 \<le> K \<and> K \<le> int (length (color_indices (colors P) c)) \<longrightarrow>
            (\<exists>mi. select_color ap (colors P) w c K = Inr mi \<and> length mi = nat K \<and>
               distinct mi \<and> set mi \<subseteq> set (color_indices (colors P) c))"
  proof (intro allI impI)
    fix c K w assume K: "1 \<le> K \<and> K \<le> int (length (color_indices (colors P) c))"
    then have K1: "1 \<le> K" and K2: "K \<le> int (length (color_indices (colors P) c))"
      by simp_all
    from select_color_quota[OF ap K1 K2, of w] obtain mi where
      "select_color ap (colors P) w c K = Inr mi" "length mi = nat K" "distinct mi"
      "set mi \<subseteq> set (color_indices (colors P) c)" by blast
    then show "\<exists>mi. select_color ap (colors P) w c K = Inr mi \<and> length mi = nat K \<and>
               distinct mi \<and> set mi \<subseteq> set (color_indices (colors P) c)"
      by (intro exI[of _ mi]) simp
  qed
next
  show "\<forall>u d s0 s1.
            mwu_state_at ap draws P u = Some s0 \<and> mwu_state_at ap draws P (u + d) = Some s1 \<longrightarrow>
            length (X s1) = length (X s0) \<and> (\<forall>i<length (X s0). X s0 ! i \<le> X s1 ! i)"
  proof (intro allI impI)
    fix u d s0 s1
    assume a: "mwu_state_at ap draws P u = Some s0 \<and> mwu_state_at ap draws P (u + d) = Some s1"
    then have a0: "mwu_state_at ap draws P u = Some s0"
      and a1: "mwu_state_at ap draws P (u + d) = Some s1" by simp_all
    show "length (X s1) = length (X s0) \<and> (\<forall>i<length (X s0). X s0 ! i \<le> X s1 ! i)"
      by (rule mwu_state_at_X_mono[OF a0 a1])
  qed
qed

theorem C5_selection_witness:
  "argpartition_ok argsort \<and> distinct (map fst (kis (P_small (1 / 2)))) \<and>
   length (X (mwu_init draws9 (P_small (1 / 2)))) = length (colors (P_small (1 / 2))) \<and>
   mwu_body argsort draws9 (P_small (1 / 2)) (4 / 9) 1 0 (mwu_init draws9 (P_small (1 / 2)))
     = Inr (Continue \<lparr>h = [9 / 26, 4 / 13, 9 / 26], X = [1, 0, 1],
              nextSolutionCheckWait = 8, gen = 1\<rparr>) \<and>
   X (mwu_init draws9 (P_small (1 / 2))) = [0, 0, 0] \<and>
   (\<exists>sels.
      list_all2 (\<lambda>(c, K) mi.
         select_color argsort (colors (P_small (1 / 2)))
           (run_query (features (P_small (1 / 2))) (gamma (P_small (1 / 2)) / 2)
              (h (mwu_init draws9 (P_small (1 / 2))))) c K = Inr mi \<and>
         distinct mi \<and> set mi \<subseteq> set (color_indices (colors (P_small (1 / 2))) c) \<and>
         (1 \<le> K \<and> K \<le> int (length (color_indices (colors (P_small (1 / 2))) c)) \<longrightarrow>
            length mi = nat K)) (kis (P_small (1 / 2))) sels \<and>
      (\<forall>i<length (X (mwu_init draws9 (P_small (1 / 2)))).
         [1, 0, 1] ! i = X (mwu_init draws9 (P_small (1 / 2))) ! i +
           (if i \<in> set (concat sels) then 1 else (0::real)))) \<and>
   select_color argsort [''a'', ''a'', ''b''] [1 / 3, 1 / 3, 1 / 3] ''a'' 1 = Inr [0] \<and>
   select_color argsort [''a'', ''a'', ''b''] [1 / 3, 1 / 3, 1 / 3] ''b'' 1 = Inr [2]"
proof -
  let ?P = "P_small (1 / 2)"
  let ?s' = "\<lparr>h = [9 / 26, 4 / 13, 9 / 26], X = [1, 0, 1],
              nextSolutionCheckWait = 8, gen = 1\<rparr>"
  have dk: "distinct (map fst (kis ?P))" by (simp add: P_small_def)
  have X0: "X (mwu_init draws9 ?P) = [0, 0, 0]"
    by (simp add: mwu_init_def P_small_def numeral_3_eq_3)
  have lX: "length (X (mwu_init draws9 ?P)) = length (colors ?P)"
    unfolding X0 by (simp add: P_small_def)
  have b: "mwu_body argsort draws9 ?P (4 / 9) 1 0 (mwu_init draws9 ?P) = Inr (Continue ?s')"
    using mwu_body_small[of draws9] by (simp add: draws9_def)
  have step: "mwu_body argsort draws9 ?P (4 / 9) 1 0 (mwu_init draws9 ?P) = Inr (Continue ?s') \<or>
              mwu_body argsort draws9 ?P (4 / 9) 1 0 (mwu_init draws9 ?P) = Inr (Break ?s')"
    using b by simp
  from C5_selection[OF argsort_ok dk lX step]
  have "\<exists>sels.
      list_all2 (\<lambda>(c, K) mi.
         select_color argsort (colors ?P)
           (run_query (features ?P) (gamma ?P / 2) (h (mwu_init draws9 ?P))) c K = Inr mi \<and>
         distinct mi \<and> set mi \<subseteq> set (color_indices (colors ?P) c) \<and>
         (1 \<le> K \<and> K \<le> int (length (color_indices (colors ?P) c)) \<longrightarrow>
            length mi = nat K)) (kis ?P) sels \<and>
      (\<forall>i\<in>set (concat sels). i < length (X (mwu_init draws9 ?P))) \<and>
      length (X ?s') = length (X (mwu_init draws9 ?P)) \<and>
      (\<forall>i<length (X (mwu_init draws9 ?P)).
         X ?s' ! i = X (mwu_init draws9 ?P) ! i +
           (if i \<in> set (concat sels) then 1 else 0))"
    by (rule conjunct1)
  then obtain sels where
    la: "list_all2 (\<lambda>(c, K) mi.
         select_color argsort (colors ?P)
           (run_query (features ?P) (gamma ?P / 2) (h (mwu_init draws9 ?P))) c K = Inr mi \<and>
         distinct mi \<and> set mi \<subseteq> set (color_indices (colors ?P) c) \<and>
         (1 \<le> K \<and> K \<le> int (length (color_indices (colors ?P) c)) \<longrightarrow>
            length mi = nat K)) (kis ?P) sels"
    and Xf: "\<forall>i<length (X (mwu_init draws9 ?P)).
         X ?s' ! i = X (mwu_init draws9 ?P) ! i +
           (if i \<in> set (concat sels) then 1 else 0)"
    by (elim exE conjE)
  have Xf': "\<forall>i<length (X (mwu_init draws9 ?P)).
         [1, 0, 1] ! i = X (mwu_init draws9 ?P) ! i +
           (if i \<in> set (concat sels) then 1 else (0::real))"
    using Xf by (simp only: mwu_state.select_convs)
  have ex: "\<exists>sels.
      list_all2 (\<lambda>(c, K) mi.
         select_color argsort (colors ?P)
           (run_query (features ?P) (gamma ?P / 2) (h (mwu_init draws9 ?P))) c K = Inr mi \<and>
         distinct mi \<and> set mi \<subseteq> set (color_indices (colors ?P) c) \<and>
         (1 \<le> K \<and> K \<le> int (length (color_indices (colors ?P) c)) \<longrightarrow>
            length mi = nat K)) (kis ?P) sels \<and>
      (\<forall>i<length (X (mwu_init draws9 ?P)).
         [1, 0, 1] ! i = X (mwu_init draws9 ?P) ! i +
           (if i \<in> set (concat sels) then 1 else (0::real)))"
    using la Xf' by (intro exI[of _ sels] conjI)
  show ?thesis
    by (intro conjI argsort_ok dk lX b X0 ex select_small)
qed

text \<open>
  C7. The weight vector starts as the uniform vector \<open>1/N\<close>. With \<open>k \<ge> 2\<close> and \<open>\<epsilon>\<close> in (0, 1),
  at the start of every iteration reached, and again after the update and normalisation
  of that iteration, \<open>h\<close> has \<open>N\<close> entries, none negative, and they sum to 1.
\<close>

theorem C7_h_invariant:
  assumes k2: "2 \<le> k P" and e: "0 < epsilon P" "epsilon P < 1"
    and lf: "length (features P) = N P" and n: "0 < N P"
  shows "h (mwu_init draws P) = replicate (N P) (1 / real (N P)) \<and>
         (\<forall>t s. mwu_state_at ap draws P t = Some s \<longrightarrow>
            length (h s) = N P \<and> (\<forall>x\<in>set (h s). 0 \<le> x) \<and> sum_list (h s) = 1 \<and>
            (\<forall>s'. mwu_body ap draws P (scaled_eps_of (epsilon P)) (k P - 1) t s = Inr (Continue s') \<or>
                   mwu_body ap draws P (scaled_eps_of (epsilon P)) (k P - 1) t s = Inr (Break s') \<longrightarrow>
               length (h s') = N P \<and> (\<forall>x\<in>set (h s'). 0 \<le> x) \<and> sum_list (h s') = 1))"
proof (intro conjI allI impI)
  show "h (mwu_init draws P) = replicate (N P) (1 / real (N P))" by (simp add: mwu_init_def)
next
  fix t s assume st: "mwu_state_at ap draws P t = Some s"
  from mwu_state_at_h_ok[OF k2 e lf n st] have ok: "h_ok (h s)" and l: "length (h s) = N P"
    by auto
  show "length (h s) = N P" by (rule l)
  show "\<forall>x\<in>set (h s). 0 \<le> x" using ok by (simp add: h_ok_def)
  show "sum_list (h s) = 1" using ok by (simp add: h_ok_def)
  fix s'
  assume b: "mwu_body ap draws P (scaled_eps_of (epsilon P)) (k P - 1) t s = Inr (Continue s') \<or>
             mwu_body ap draws P (scaled_eps_of (epsilon P)) (k P - 1) t s = Inr (Break s')"
  have se: "0 \<le> scaled_eps_of (epsilon P)" "scaled_eps_of (epsilon P) < 4"
    using e by (auto simp: scaled_eps_of_def divide_less_eq)
  have mu: "1 \<le> k P - 1" using k2 by simp
  have len: "length (features P) = length (h s)" using lf l by simp
  from b have ok': "h_ok (h s') \<and> length (h s') = length (h s)"
  proof
    assume "mwu_body ap draws P (scaled_eps_of (epsilon P)) (k P - 1) t s = Inr (Continue s')"
    from mwu_body_h_ok[OF mu se len ok this] show ?thesis by simp
  next
    assume "mwu_body ap draws P (scaled_eps_of (epsilon P)) (k P - 1) t s = Inr (Break s')"
    from mwu_body_h_ok[OF mu se len ok this] show ?thesis by simp
  qed
  show "length (h s') = N P" using ok' l by simp
  show "\<forall>x\<in>set (h s'). 0 \<le> x" using ok' by (simp add: h_ok_def)
  show "sum_list (h s') = 1" using ok' by (simp add: h_ok_def)
qed

theorem C7_h_invariant_witness:
  "2 \<le> k (P_small (1 / 2)) \<and> 0 < epsilon (P_small (1 / 2)) \<and> epsilon (P_small (1 / 2)) < 1 \<and>
   length (features (P_small (1 / 2))) = N (P_small (1 / 2)) \<and> 0 < N (P_small (1 / 2)) \<and>
   mwu_state_at argsort (\<lambda>i. 9) (P_small (1 / 2)) (Suc 0)
     = Some \<lparr>h = [9 / 26, 4 / 13, 9 / 26], X = [1, 0, 1], nextSolutionCheckWait = 8, gen = 1\<rparr> \<and>
   list_all (\<lambda>x. 0 \<le> x) [9 / 26, 4 / 13, 9 / 26 :: real] \<and>
   sum_list [9 / 26, 4 / 13, 9 / 26 :: real] = 1"
proof -
  have a: "2 \<le> k (P_small (1 / 2))" "0 < epsilon (P_small (1 / 2))"
    "epsilon (P_small (1 / 2)) < 1" "length (features (P_small (1 / 2))) = N (P_small (1 / 2))"
    "0 < N (P_small (1 / 2))"
    by (simp_all add: P_small_def)
  have st: "mwu_state_at argsort (\<lambda>i. 9) (P_small (1 / 2)) (Suc 0)
     = Some \<lparr>h = [9 / 26, 4 / 13, 9 / 26], X = [1, 0, 1], nextSolutionCheckWait = 8, gen = 1\<rparr>"
    using mwu_state_at_small_1[of "\<lambda>i. 9"] by simp
  from C7_h_invariant[OF a, of "\<lambda>i. 9" argsort] st
  have "(\<forall>x\<in>set [9 / 26, 4 / 13, 9 / 26 :: real]. 0 \<le> x) \<and>
        sum_list [9 / 26, 4 / 13, 9 / 26 :: real] = 1"
    by (metis mwu_state.select_convs(1))
  then have "list_all (\<lambda>x. 0 \<le> x) [9 / 26, 4 / 13, 9 / 26 :: real] \<and>
        sum_list [9 / 26, 4 / 13, 9 / 26 :: real] = 1"
    by (simp add: list_all_iff)
  then show ?thesis using a st by blast
qed

text \<open>
  C3. The claim is that the stochastic early-stop check is performed after the warmup.
  The code decrements \<^verbatim>\<open>nextSolutionCheckWait\<close> during the warmup as well, so a first wait
  drawn from [9, 28] has passed zero long before \<open>t > 100\<close> and never equals zero again:
  at every iteration reached the counter is the first draw minus \<open>t\<close>, the guard of the
  check is false, no iteration breaks, the generator is never drawn from a second time,
  and a run that returns a vector has run all its iterations.
\<close>

theorem C3_check_never_runs:
  assumes lo: "9 \<le> draws 0" and hi: "draws 0 \<le> 28"
  shows "(\<forall>t s. mwu_state_at ap draws P t = Some s \<longrightarrow>
            nextSolutionCheckWait s = draws 0 - int t \<and> gen s = 1 \<and>
            \<not> (t > 100 \<and> nextSolutionCheckWait s = 0) \<and>
            (\<forall>s'. mwu_body ap draws P (scaled_eps_of (epsilon P)) (k P - 1) t s \<noteq> Inr (Break s'))) \<and>
         (\<forall>t s'. mwu_run ap draws P = Inr (Left_Loop (Some t) s') \<longrightarrow>
            Suc t = mwu_rounds P \<and> gen s' = 1)"
proof -
  have d: "draws 0 \<le> 100" using hi by simp
  have inner: "nextSolutionCheckWait s = draws 0 - int t \<and> gen s = 1 \<and>
            \<not> (t > 100 \<and> nextSolutionCheckWait s = 0) \<and>
            (\<forall>s'. mwu_body ap draws P (scaled_eps_of (epsilon P)) (k P - 1) t s \<noteq> Inr (Break s'))"
    if st: "mwu_state_at ap draws P t = Some s" for t s
  proof -
    from mwu_state_at_wait[OF d st]
    have w: "nextSolutionCheckWait s = draws 0 - int t" and g: "gen s = 1" by auto
    have guard: "\<not> (t > 100 \<and> nextSolutionCheckWait s = 0)" using w hi by auto
    show ?thesis using w g guard mwu_body_no_Break[OF guard] by blast
  qed
  have outer: "Suc t = mwu_rounds P \<and> gen s' = 1"
    if r: "mwu_run ap draws P = Inr (Left_Loop (Some t) s')" for t s'
  proof -
    from mwu_run_exit[OF r] obtain s_t where st: "mwu_state_at ap draws P t = Some s_t"
      and b: "mwu_body ap draws P (scaled_eps_of (epsilon P)) (k P - 1) t s_t = Inr (Break s') \<or>
              mwu_body ap draws P (scaled_eps_of (epsilon P)) (k P - 1) t s_t = Inr (Continue s')
                \<and> Suc t = mwu_rounds P"
      by auto
    have nb: "mwu_body ap draws P (scaled_eps_of (epsilon P)) (k P - 1) t s_t \<noteq> Inr (Break s')"
      using inner[OF st] by blast
    with b have c: "mwu_body ap draws P (scaled_eps_of (epsilon P)) (k P - 1) t s_t = Inr (Continue s')"
      and e: "Suc t = mwu_rounds P" by auto
    have "mwu_state_at ap draws P (Suc t) = Some s'"
      using st c mwu_state_at_Suc[of ap draws P t s'] by blast
    from mwu_state_at_wait[OF d this] e show ?thesis by simp
  qed
  show ?thesis using inner outer by blast
qed

theorem C3_check_never_runs_witness:
  "(9::int) \<le> 9 \<and> (9::int) \<le> 28 \<and> 841 \<le> mwu_rounds P_warm \<and>
   (\<exists>t s. mwu_run argsort (\<lambda>i. 9) P_warm = Inr (Left_Loop (Some t) s) \<and>
      Suc t = mwu_rounds P_warm \<and> gen s = 1)"
proof -
  have lo: "(9::int) \<le> (\<lambda>i::nat. 9) 0" and hi: "(\<lambda>i::nat. 9::int) 0 \<le> 28"
    and d: "(\<lambda>i::nat. 9::int) 0 \<le> 100" by simp_all
  from mwu_run_warm[OF argsort_ok d] obtain t s where
    r: "mwu_run argsort (\<lambda>i. 9) P_warm = Inr (Left_Loop (Some t) s)" by blast
  from C3_check_never_runs[OF lo hi, of argsort P_warm] r
  have "Suc t = mwu_rounds P_warm \<and> gen s = 1" by blast
  then show ?thesis using r mwu_rounds_warm by auto
qed

text \<open>
  C9. The claim bounds the number of iterations by \<open>\<alpha>\<close> times the ceiling of
  \<open>(8\<mu>/\<epsilon>'\<^sup>2) ln N\<close> (\<open>spec_T\<close>). On the small instance, with \<open>\<alpha> = 1/100\<close>, that bound is
  below 1, and the loop executes one iteration.
\<close>

theorem C9_counterexample:
  "mwu_run argsort draws9 (P_small (1 / 2))
     = Inr (Left_Loop (Some 0) \<lparr>h = [9 / 26, 4 / 13, 9 / 26], X = [1, 0, 1],
              nextSolutionCheckWait = 8, gen = 1\<rparr>) \<and>
   \<not> real (0 + 1) \<le> spec_T (P_small (1 / 2))"
  using mwu_run_small[of draws9] spec_T_small[of "1 / 2"] by (simp add: draws9_def)

text \<open>
  C9, as the code has it. The loop runs over \<^verbatim>\<open>range(math.ceil(T))\<close> where \<open>T\<close> is
  \<open>(8\<mu>/\<epsilon>'\<^sup>2) ln N\<close> already multiplied by \<open>\<alpha>\<close>: the ceiling is taken after the scaling, and
  for \<open>\<alpha> = 1\<close> the count is the ceiling of \<open>(8\<mu>/\<epsilon>'\<^sup>2) ln N\<close>. Every iteration the loop
  executes, whether it is the last before the loop is left, the one that returns
  \<^verbatim>\<open>None\<close> or one that raises, has an index below that count.
\<close>

theorem C9_rounds_bound:
  "mwu_rounds P =
     nat \<lceil>((8 * of_int (k P - 1)) / (scaled_eps_of (epsilon P))\<^sup>2) * ln (real (N P))
            * percent_theoretical_limit P\<rceil> \<and>
   (percent_theoretical_limit P = 1 \<longrightarrow>
      mwu_rounds P =
        nat \<lceil>((8 * of_int (k P - 1)) / (scaled_eps_of (epsilon P))\<^sup>2) * ln (real (N P))\<rceil>) \<and>
   (\<forall>t s. mwu_run ap draws P = Inr (Left_Loop (Some t) s) \<longrightarrow> Suc t \<le> mwu_rounds P) \<and>
   (mwu_run ap draws P = Inr Returned_None \<longrightarrow>
      (\<exists>t<mwu_rounds P. \<exists>s. mwu_state_at ap draws P t = Some s \<and>
         mwu_body ap draws P (scaled_eps_of (epsilon P)) (k P - 1) t s = Inr Return_None)) \<and>
   (\<forall>e. mwu_run ap draws P = Inl e \<longrightarrow>
      (\<exists>t<mwu_rounds P. \<exists>s. mwu_state_at ap draws P t = Some s \<and>
         mwu_body ap draws P (scaled_eps_of (epsilon P)) (k P - 1) t s = Inl e))"
proof (intro conjI allI impI)
  show "mwu_rounds P =
     nat \<lceil>((8 * of_int (k P - 1)) / (scaled_eps_of (epsilon P))\<^sup>2) * ln (real (N P))
            * percent_theoretical_limit P\<rceil>"
    by (simp add: mwu_rounds_def mwu_T_def)
next
  assume "percent_theoretical_limit P = 1"
  then show "mwu_rounds P =
        nat \<lceil>((8 * of_int (k P - 1)) / (scaled_eps_of (epsilon P))\<^sup>2) * ln (real (N P))\<rceil>"
    by (simp add: mwu_rounds_def mwu_T_def)
next
  fix t s assume r: "mwu_run ap draws P = Inr (Left_Loop (Some t) s)"
  from mwu_run_exit[OF r] show "Suc t \<le> mwu_rounds P" by auto
next
  assume r: "mwu_run ap draws P = Inr Returned_None"
  from mwu_run_exit[OF r]
  show "\<exists>t<mwu_rounds P. \<exists>s. mwu_state_at ap draws P t = Some s \<and>
         mwu_body ap draws P (scaled_eps_of (epsilon P)) (k P - 1) t s = Inr Return_None"
    by auto
next
  fix e assume r: "mwu_run ap draws P = Inl e"
  from mwu_run_exit[OF r]
  show "\<exists>t<mwu_rounds P. \<exists>s. mwu_state_at ap draws P t = Some s \<and>
         mwu_body ap draws P (scaled_eps_of (epsilon P)) (k P - 1) t s = Inl e"
    by auto
qed

theorem C9_rounds_bound_witness:
  "percent_theoretical_limit P_warm = 1 \<and>
   mwu_rounds P_warm = nat \<lceil>((8 * of_int (k P_warm - 1)) / (scaled_eps_of (epsilon P_warm))\<^sup>2)
                              * ln (real (N P_warm))\<rceil> \<and>
   mwu_run argsort draws9 (P_small (1 / 2))
     = Inr (Left_Loop (Some 0) \<lparr>h = [9 / 26, 4 / 13, 9 / 26], X = [1, 0, 1],
              nextSolutionCheckWait = 8, gen = 1\<rparr>) \<and>
   Suc 0 \<le> mwu_rounds (P_small (1 / 2))"
proof -
  have a: "percent_theoretical_limit P_warm = 1" by (simp add: P_warm_def)
  have r: "mwu_run argsort draws9 (P_small (1 / 2))
     = Inr (Left_Loop (Some 0) \<lparr>h = [9 / 26, 4 / 13, 9 / 26], X = [1, 0, 1],
              nextSolutionCheckWait = 8, gen = 1\<rparr>)"
    using mwu_run_small[of draws9] by (simp add: draws9_def)
  from C9_rounds_bound[of P_warm argsort draws9] a
  have b: "mwu_rounds P_warm = nat \<lceil>((8 * of_int (k P_warm - 1))
             / (scaled_eps_of (epsilon P_warm))\<^sup>2) * ln (real (N P_warm))\<rceil>"
    by blast
  from C9_rounds_bound[of "P_small (1 / 2)" argsort draws9] r
  have c: "Suc 0 \<le> mwu_rounds (P_small (1 / 2))" by blast
  show ?thesis using a b r c by blast
qed

text \<open>
  C10. For \<open>k > 0\<close>, \<open>N > 0\<close>, \<open>\<epsilon> > 0\<close> and a positive iteration scale, the solver raises
  UnboundLocalError (the loop variable \<open>t\<close> read at \<^verbatim>\<open>X / (t + 1)\<close> was never bound)
  exactly when \<open>k = 1\<close> or \<open>N = 1\<close>: the guard \<^verbatim>\<open>assert(k > 0)\<close> lets \<open>k = 1\<close> through, and
  the solver needs \<open>k \<ge> 2\<close> and \<open>N \<ge> 2\<close>. With \<open>k = 1\<close> an iteration that got past the
  test on \<open>W\<close> would raise ZeroDivisionError at \<^verbatim>\<open>1.0 / mu\<close>.
\<close>

theorem C10_k1_unbound:
  assumes k0: "0 < k P" and n0: "0 < N P" and e: "0 < epsilon P"
    and a: "0 < percent_theoretical_limit P"
  shows "(mult_weight_upd ap draws P = Inl UnboundLocalError \<longleftrightarrow> k P = 1 \<or> N P = 1) \<and>
         (k P = 1 \<longrightarrow> features P \<noteq> [] \<longrightarrow>
            (\<forall>t s W. round_W ap P s = Some W \<and> W < 1 \<longrightarrow>
               mwu_body ap draws P (scaled_eps_of (epsilon P)) (k P - 1) t s
                 = Inl ZeroDivisionError))"
proof (intro conjI impI allI)
  have g1: "1 + epsilon P / 4 \<noteq> 0" using e by (simp add: add_pos_pos less_imp_neq[symmetric])
  have g2: "(scaled_eps_of (epsilon P))\<^sup>2 \<noteq> 0" using scaled_eps_pos[OF e] by simp
  have unf: "mult_weight_upd ap draws P =
           (case mwu_run ap draws P of
             Inl e \<Rightarrow> Inl e
           | Inr Returned_None \<Rightarrow> Inr None
           | Inr (Left_Loop None s) \<Rightarrow> Inl UnboundLocalError
           | Inr (Left_Loop (Some t) s) \<Rightarrow> Inr (Some (map (\<lambda>x. x / (of_nat t + 1)) (X s))))"
    using k0 n0 g1 g2 by (simp add: mult_weight_upd_def)
  show "mult_weight_upd ap draws P = Inl UnboundLocalError \<longleftrightarrow> k P = 1 \<or> N P = 1"
  proof
    assume "k P = 1 \<or> N P = 1"
    then have "mwu_rounds P = 0" by (rule mwu_T_zero)
    then have "mwu_run ap draws P = Inr (Left_Loop None (mwu_init draws P))"
      by (simp add: mwu_run_def)
    then show "mult_weight_upd ap draws P = Inl UnboundLocalError" unfolding unf by simp
  next
    assume u: "mult_weight_upd ap draws P = Inl UnboundLocalError"
    show "k P = 1 \<or> N P = 1"
    proof (rule ccontr)
      assume "\<not> (k P = 1 \<or> N P = 1)"
      then have k2: "2 \<le> k P" and n2: "2 \<le> N P" using k0 n0 by auto
      have pos: "0 < mwu_rounds P"
        using mwu_T_pos[OF k2 n2 e a] by (simp add: mwu_rounds_def)
      obtain R where R: "mwu_run ap draws P = R" by simp
      note ex = mwu_run_exit[OF R]
      show False
      proof (cases R)
        case (Inl e')
        with ex obtain t s where
          "mwu_body ap draws P (scaled_eps_of (epsilon P)) (k P - 1) t s = Inl e'" by auto
        from mwu_body_error[OF this] have "e' \<noteq> UnboundLocalError" by auto
        then show False using u R Inl unfolding unf by simp
      next
        case (Inr x)
        show False
        proof (cases x)
          case Returned_None
          then show False using u R Inr unfolding unf by simp
        next
          case (Left_Loop lt s')
          with ex Inr pos obtain t where "lt = Some t" by auto
          then show False using u R Inr Left_Loop unfolding unf by simp
        qed
      qed
    qed
  qed
next
  fix t s W
  assume "k P = 1" and "features P \<noteq> []" and "round_W ap P s = Some W \<and> W < 1"
  then show "mwu_body ap draws P (scaled_eps_of (epsilon P)) (k P - 1) t s
                 = Inl ZeroDivisionError"
    using mwu_body_zero_mu[of ap P s W draws "scaled_eps_of (epsilon P)" t] by simp
qed

theorem C10_k1_unbound_witness:
  "0 < k P_single \<and> 0 < N P_single \<and> 0 < epsilon P_single \<and>
   0 < percent_theoretical_limit P_single \<and> k P_single = 1 \<and>
   mult_weight_upd argsort draws9 P_single = Inl UnboundLocalError"
proof -
  have a: "0 < k P_single" "0 < N P_single" "0 < epsilon P_single"
    "0 < percent_theoretical_limit P_single" and k1: "k P_single = 1"
    by (simp_all add: P_single_def)
  from C10_k1_unbound[OF a, of argsort draws9] k1
  have "mult_weight_upd argsort draws9 P_single = Inl UnboundLocalError" by blast
  then show ?thesis using a k1 by blast
qed

text \<open>
  C6. The claim is that ties are broken by ascending index. Selection by repeated
  minimum meets the contract of argpartition on every input; with the sums 2, 2, 1 for
  three points of one color and two points wanted it returns the positions 2, 1, 0, so
  the points 2 and 1 are selected, while the order (sum, index) puts the points 2 and 0
  first.
\<close>

theorem C6_counterexample:
  "argpartition_ok argselect \<and>
   select_color argselect [''a'', ''a'', ''a''] [2, 2, 1] ''a'' 2 = Inr [2, 1] \<and>
   spec_select [''a'', ''a'', ''a''] [2, 2, 1] ''a'' 2 = [2, 0] \<and>
   set [2, 1 :: nat] \<noteq> set [2, 0]"
proof (intro conjI)
  show "argpartition_ok argselect" by (rule argselect_ok)
  show "select_color argselect [''a'', ''a'', ''a''] [2, 2, 1] ''a'' 2 = Inr [2, 1]"
    by (simp add: select_color_def color_indices_aaa np_argpartition_def argselect_221
        py_slice_to_def)
  show "spec_select [''a'', ''a'', ''a''] [2, 2, 1] ''a'' 2 = [2, 0]"
    by (simp add: spec_select_def color_indices_aaa)
  show "set [2, 1 :: nat] \<noteq> set [2, 0]"
  proof
    assume "set [2, 1 :: nat] = set [2, 0]"
    then have "(0::nat) \<in> set [2, 1]" by simp
    then show False by simp
  qed
qed

text \<open>
  C6, as the code has it. For a color with \<open>1 \<le> K(c) \<le> |I_c|\<close> the selected indices are
  \<open>K(c)\<close> distinct indices of the color with smallest sums: every selected sum is at most
  every unselected sum of that color. When no two points of the color have equal sums
  the selected set is the set of the first \<open>K(c)\<close> indices in ascending order of the
  sum; among equal sums the choice is argpartition's.
\<close>

theorem C6_selection_smallest:
  assumes ap: "argpartition_ok ap" and K1: "1 \<le> K"
    and K2: "K \<le> int (length (color_indices cols c))"
  shows "\<exists>mi. select_color ap cols w c K = Inr mi \<and>
           length mi = nat K \<and> distinct mi \<and> set mi \<subseteq> set (color_indices cols c) \<and>
           (\<forall>i\<in>set mi. \<forall>j\<in>set (color_indices cols c) - set mi. w ! i \<le> w ! j) \<and>
           (inj_on (\<lambda>i. w ! i) (set (color_indices cols c)) \<longrightarrow>
              set mi = set (spec_select cols w c K))"
proof -
  let ?I = "color_indices cols c"
  from select_color_quota[OF ap K1 K2, of w] obtain mi where
    sel: "select_color ap cols w c K = Inr mi" and l: "length mi = nat K"
    and d: "distinct mi" and sub: "set mi \<subseteq> set ?I"
    and low: "\<forall>i\<in>set mi. \<forall>j\<in>set ?I - set mi. w ! i \<le> w ! j"
    by blast
  note sp = spec_select_props[OF K1 K2, of w]
  have "set mi = set (spec_select cols w c K)" if inj: "inj_on (\<lambda>i. w ! i) (set ?I)"
  proof (rule smallest_sets_equal[where I = "set ?I" and f = "\<lambda>i. w ! i"])
    show "finite (set ?I)" by simp
    show "set mi \<subseteq> set ?I" by (rule sub)
    show "set (spec_select cols w c K) \<subseteq> set ?I" by (rule sp(3))
    show "card (set mi) = card (set (spec_select cols w c K))"
      using d l sp(1,2) by (simp add: distinct_card)
    show "\<forall>a\<in>set mi. \<forall>b\<in>set ?I - set mi. w ! a \<le> w ! b" by (rule low)
    show "\<forall>a\<in>set (spec_select cols w c K). \<forall>b\<in>set ?I - set (spec_select cols w c K).
            w ! a \<le> w ! b" by (rule sp(4))
    show "inj_on (\<lambda>i. w ! i) (set ?I)" by (rule inj)
  qed
  then show ?thesis using sel l d sub low by blast
qed

theorem C6_selection_smallest_witness:
  "argpartition_ok argsort \<and> (1::int) \<le> 2 \<and>
   (2::int) \<le> int (length (color_indices [''a'', ''a'', ''a''] ''a'')) \<and>
   inj_on (\<lambda>i. [3, 1, 2 :: real] ! i) (set (color_indices [''a'', ''a'', ''a''] ''a'')) \<and>
   select_color argsort [''a'', ''a'', ''a''] [3, 1, 2] ''a'' 2 = Inr [1, 2] \<and>
   set [1, 2 :: nat] = set (spec_select [''a'', ''a'', ''a''] [3, 1, 2] ''a'' 2)"
proof -
  have K1: "(1::int) \<le> 2" by simp
  have K2: "(2::int) \<le> int (length (color_indices [''a'', ''a'', ''a''] ''a''))"
    by (simp add: color_indices_aaa)
  have inj: "inj_on (\<lambda>i. [3, 1, 2 :: real] ! i) (set (color_indices [''a'', ''a'', ''a''] ''a''))"
    by (simp add: color_indices_aaa)
  have sel: "select_color argsort [''a'', ''a'', ''a''] [3, 1, 2] ''a'' 2 = Inr [1, 2]"
    by (simp add: select_color_def color_indices_aaa np_argpartition_def argsort_3
        py_slice_to_def)
  from C6_selection_smallest[OF argsort_ok K1 K2, of "[3, 1, 2]"] sel inj
  have "set [1, 2 :: nat] = set (spec_select [''a'', ''a'', ''a''] [3, 1, 2] ''a'' 2)"
    by auto
  then show ?thesis using argsort_ok K1 K2 inj sel by blast
qed

text \<open>
  C8. The claim is that the values of \<open>gamma\<close> passed to the solver are strictly decreasing
  and none is tried twice. The solver is called with \<open>gamma_upper\<close> and then, after each
  \<^verbatim>\<open>None\<close>, with the double nearest to the product of the previous value and
  \<open>1 - falloff_epsilon\<close>. On the input with two points of one color and both wanted no
  call is feasible; with \<open>gamma_upper = 2\<close> and \<open>falloff_epsilon = 1/2\<close> the values halve
  exactly down to the least positive double, the next product rounds to 0, and from
  then on the solver is called with 0 again and again: calls 1076 and 1077 both get 0,
  a value call 1076 had already rejected. (Where a smaller \<open>gamma\<close> is feasible the driver
  does get there: from \<open>gamma_upper = 8\<close> the three points on a line are tried with 8, 4,
  2 and then 1, which is feasible.)
\<close>

theorem C8_gamma_retried:
  assumes ap: "argpartition_ok ap"
  shows "(\<exists>m. fst (epsilon_falloff ap draws feats cols quotas gamma_upper mwu_epsilon
                       falloff_epsilon ptl fuel)
                = map (\<lambda>i. (falloff_step falloff_epsilon ^^ i) gamma_upper) [0..<Suc m]) \<and>
         length (fst (epsilon_falloff ap draws [ [0], [1]] [''a'', ''a''] [(''a'', 2)] 2
                        (1 / 2) (1 / 2) 1 1077)) = 1078 \<and>
         fst (epsilon_falloff ap draws [ [0], [1]] [''a'', ''a''] [(''a'', 2)] 2
                (1 / 2) (1 / 2) 1 1077) ! 0 = 2 \<and>
         fst (epsilon_falloff ap draws [ [0], [1]] [''a'', ''a''] [(''a'', 2)] 2
                (1 / 2) (1 / 2) 1 1077) ! 1 = 1 \<and>
         fst (epsilon_falloff ap draws [ [0], [1]] [''a'', ''a''] [(''a'', 2)] 2
                (1 / 2) (1 / 2) 1 1077) ! 1076 = 0 \<and>
         fst (epsilon_falloff ap draws [ [0], [1]] [''a'', ''a''] [(''a'', 2)] 2
                (1 / 2) (1 / 2) 1 1077) ! 1077 = 0 \<and>
         \<not> distinct (fst (epsilon_falloff ap draws [ [0], [1]] [''a'', ''a''] [(''a'', 2)] 2
                           (1 / 2) (1 / 2) 1 1077)) \<and>
         \<not> sorted_wrt (>) (fst (epsilon_falloff ap draws [ [0], [1]] [''a'', ''a'']
                                 [(''a'', 2)] 2 (1 / 2) (1 / 2) 1 1077)) \<and>
         mult_weight_upd ap (draws 1076) (P_all 0 (1 / 2) 1) = Inr None \<and>
         snd (epsilon_falloff ap draws [ [0], [1]] [''a'', ''a''] [(''a'', 2)] 2
                (1 / 2) (1 / 2) 1 1077) = None"
proof -
  let ?f = "\<lambda>i. (falloff_step (1 / 2) ^^ i) 2"
  let ?r = "fst (epsilon_falloff ap draws [ [0], [1]] [''a'', ''a''] [(''a'', 2)] 2
                  (1 / 2) (1 / 2) 1 1077)"
  have eq: "epsilon_falloff ap draws [ [0], [1]] [''a'', ''a''] [(''a'', 2)] 2
              (1 / 2) (1 / 2) 1 1077 = (map ?f [0..<Suc 1077], None)"
    by (rule epsilon_falloff_all[OF ap]) simp_all
  have r: "?r = map ?f [0..<Suc 1077]" by (simp only: eq fst_conv)
  have len: "length ?r = 1078" unfolding r by simp
  have nth: "?r ! i = ?f i" if "i < 1078" for i
    unfolding r using that by simp
  have n0: "?r ! 0 = 2" using nth[of 0] by simp
  have n1: "?r ! 1 = 1" using nth[of 1] halving_exact[of 1] by simp
  have s1076: "Suc 1075 = 1076" and s1077: "Suc (Suc 1075) = 1077" by simp_all
  have a: "?r ! 1076 = 0" using nth[of 1076] halving_zero(1) by (simp only: s1076)
  have b: "?r ! 1077 = 0" using nth[of 1077] halving_zero(2) by (simp only: s1077)
  have nd: "\<not> distinct ?r"
  proof
    assume "distinct ?r"
    then have "?r ! 1076 \<noteq> ?r ! 1077"
      using len by (simp add: nth_eq_iff_index_eq)
    then show False using a b by simp
  qed
  have ns: "\<not> sorted_wrt (>) ?r"
  proof
    assume "sorted_wrt (>) ?r"
    then have "?r ! 1076 > ?r ! 1077"
      using len by (simp add: sorted_wrt_iff_nth_less)
    then show False using a b by simp
  qed
  have none: "mult_weight_upd ap (draws 1076) (P_all 0 (1 / 2) 1) = Inr None"
    by (rule mult_weight_upd_all[OF ap]) simp_all
  have sn: "snd (epsilon_falloff ap draws [ [0], [1]] [''a'', ''a''] [(''a'', 2)] 2
                (1 / 2) (1 / 2) 1 1077) = None"
    by (simp only: eq snd_conv)
  show ?thesis by (intro conjI epsilon_falloff_received len n0 n1 a b nd ns none sn)
qed

theorem C8_gamma_retried_witness:
  "argpartition_ok argsort \<and>
   fst (epsilon_falloff argsort (\<lambda>n. draws9) [ [0], [1]] [''a'', ''a''] [(''a'', 2)] 2
          (1 / 2) (1 / 2) 1 1077) ! 1076 = 0 \<and>
   fst (epsilon_falloff argsort (\<lambda>n. draws9) [ [0], [1]] [''a'', ''a''] [(''a'', 2)] 2
          (1 / 2) (1 / 2) 1 1077) ! 1077 = 0 \<and>
   mult_weight_upd argsort draws9 (P_all 0 (1 / 2) 1) = Inr None \<and>
   epsilon_falloff argsort (\<lambda>n. draws9) [ [0], [1], [2]] [''a'', ''a'', ''b'']
     [(''a'', 1), (''b'', 1)] 8 (1 / 2) (1 / 2) (1 / 100) 4
   = ([8, 4, 2, 1], Some (Inr (1, [1, 0, 1])))"
  using C8_gamma_retried[OF argsort_ok, of "\<lambda>n. draws9" "[ [0], [1], [2]]"
      "[''a'', ''a'', ''b'']" "[(''a'', 1), (''b'', 1)]" 8 "1 / 2" "1 / 2" "1 / 100" 4]
    argsort_ok epsilon_falloff_small
  by simp

text \<open>
  C2. The claim is that the driver terminates on every valid input. For two points of
  one color with both wanted (\<open>k = N = 2\<close>, \<open>K(c) = |I_c|\<close>), every ball contains its own
  center, so in the first iteration \<open>W \<ge> h[0] + h[1] = 1\<close> and the solver returns
  \<^verbatim>\<open>None\<close> for every \<open>gamma \<ge> 0\<close>: whatever the fuel, the loop of the driver is still
  running when it is used up.
\<close>

theorem C2_driver_never_returns:
  assumes ap: "argpartition_ok ap" and g0: "0 < gamma_upper"
    and fe: "0 < falloff_epsilon" "falloff_epsilon < 1"
    and e: "0 < mwu_epsilon" "mwu_epsilon < 1" and a: "0 < ptl" "ptl \<le> 1"
  shows "snd (epsilon_falloff ap draws [ [0], [1]] [''a'', ''a''] [(''a'', 2)] gamma_upper
                mwu_epsilon falloff_epsilon ptl fuel) = None"
proof -
  have gu: "0 \<le> gamma_upper" using g0 by simp
  have f1: "falloff_epsilon \<le> 1" using fe by simp
  show ?thesis by (simp only: epsilon_falloff_all[OF ap gu f1 e a] snd_conv)
qed

theorem C2_driver_never_returns_witness:
  "argpartition_ok argsort \<and> (0::real) < 2 \<and> (0::real) < 1 / 10 \<and> (1 / 10 :: real) < 1 \<and>
   (0::real) < 1 / 2 \<and> (1 / 2 :: real) < 1 \<and> (0::real) < 1 \<and> (1::real) \<le> 1 \<and>
   snd (epsilon_falloff argsort (\<lambda>n. draws9) [ [0], [1]] [''a'', ''a''] [(''a'', 2)] 2
          (1 / 2) (1 / 10) 1 1000) = None"
proof -
  have h: "(0::real) < 2" "(0::real) < 1 / 10" "(1 / 10 :: real) < 1"
    "(0::real) < 1 / 2" "(1 / 2 :: real) < 1" "(0::real) < 1" "(1::real) \<le> 1"
    by simp_all
  from C2_driver_never_returns[OF argsort_ok h, of "\<lambda>n. draws9" 1000]
  show ?thesis using argsort_ok h by blast
qed

end
